theory Spec2Isabelle
  imports Complex_Main
begin

section \<open>Position model (src/game/types.ts)\<close>

text \<open>
  The engine works on an 8x8 grid stored as an array of row arrays. Coordinates are
  JavaScript numbers that the engine only ever uses as integer indices; they are modelled
  as \<open>int\<close>. Scores are JavaScript doubles; they are modelled as exact reals.
  The record fields \<open>pid\<close>, \<open>fromSq\<close> and \<open>toSq\<close> stand for the source's
  \<open>id\<close>, \<open>from\<close> and \<open>to\<close>, whose names are taken in Isabelle.
  The board of an \<open>AppliedMove\<close> is a board value in the value-level model and the
  address of a board in the store-level model further down.
\<close>

datatype player = Light | Dark

record piece =
  pid :: int
  player :: player
  king :: bool

type_synonym cell = "piece option"

type_synonym board = "cell list list"

record move =
  pieceId :: int
  fromSq :: "int \<times> int"
  toSq :: "int \<times> int"
  capture :: "(int \<times> int) option"

record 'b appliedMove =
  board :: 'b
  currentPlayer :: player
  forcedPieceId :: "int option"
  capturedPieceId :: "int option"
  promoted :: bool

text \<open>
  The only exception the engine can raise is the \<open>TypeError\<close> of indexing a row that
  does not exist (\<open>board[row]\<close> is \<open>undefined\<close>). A write \<open>board[row][col] = v\<close>
  with \<open>row\<close> present and \<open>col\<close> outside the row does not raise in JavaScript (the row
  array grows, or gets an extra property); the model does not follow the program there and
  stops with \<open>OffGridWrite\<close>.
\<close>

datatype fault = TypeError | OffGridWrite

definition wfBoard :: "board \<Rightarrow> bool" where
  "wfBoard b \<longleftrightarrow> length b = 8 \<and> (\<forall>r \<in> set b. length r = 8)"

definition isInside :: "int \<Rightarrow> int \<Rightarrow> bool" where
  "isInside row col \<longleftrightarrow> row \<ge> 0 \<and> row < 8 \<and> col \<ge> 0 \<and> col < 8"

definition otherPlayer :: "player \<Rightarrow> player" where
  "otherPlayer p = (if p = Light then Dark else Light)"

text \<open>
  \<open>board[row][col]\<close>: a missing row raises; a missing column reads \<open>undefined\<close>, which
  every test of the engine treats like \<open>null\<close>.
\<close>

definition cellAt :: "board \<Rightarrow> int \<Rightarrow> int \<Rightarrow> fault + cell" where
  "cellAt b row col =
     (if 0 \<le> row \<and> row < int (length b)
      then (let r = b ! nat row
            in Inr (if 0 \<le> col \<and> col < int (length r) then r ! nat col else None))
      else Inl TypeError)"

text \<open>\<open>board[row][col] = v\<close>\<close>

definition setCell :: "board \<Rightarrow> int \<Rightarrow> int \<Rightarrow> cell \<Rightarrow> fault + board" where
  "setCell b row col v =
     (if 0 \<le> row \<and> row < int (length b)
      then (let r = b ! nat row
            in if 0 \<le> col \<and> col < int (length r)
               then Inr (b[nat row := r[nat col := v]])
               else Inl OffGridWrite)
      else Inl TypeError)"

section \<open>Initial position\<close>

definition isDarkSquare :: "int \<Rightarrow> int \<Rightarrow> bool" where
  "isDarkSquare row col \<longleftrightarrow> (row + col) mod 2 = 1"

text \<open>The squares of the given rows, in the order \<open>for row ..., for col = 0..7\<close>.\<close>

definition squaresOfRows :: "int list \<Rightarrow> (int \<times> int) list" where
  "squaresOfRows rows = concat (map (\<lambda>row. map (\<lambda>col. (row, col)) [0, 1, 2, 3, 4, 5, 6, 7]) rows)"

text \<open>
  One of the two placing loops of \<open>createInitialBoard\<close>, with \<open>board\<close> and \<open>nextId\<close>.
  Its writes are always inside the 8x8 grid built just before.
\<close>

fun setupLoop :: "player \<Rightarrow> (int \<times> int) list \<Rightarrow> board \<Rightarrow> int \<Rightarrow> board \<times> int" where
  "setupLoop p [] b nextId = (b, nextId)"
| "setupLoop p ((row, col) # sqs) b nextId =
     (if isDarkSquare row col
      then setupLoop p sqs
             (b[nat row := (b ! nat row)[nat col := Some \<lparr>pid = nextId, player = p, king = False\<rparr>]])
             (nextId + 1)
      else setupLoop p sqs b nextId)"

definition createInitialBoard :: "int \<Rightarrow> board \<times> int" where
  "createInitialBoard startId =
     (let b0 = replicate 8 (replicate 8 None);
          (b1, n1) = setupLoop Dark (squaresOfRows [0, 1, 2]) b0 startId;
          (b2, n2) = setupLoop Light (squaresOfRows [5, 6, 7]) b1 n1
      in (b2, n2))"

section \<open>Move generator\<close>

definition getDirections :: "piece \<Rightarrow> (int \<times> int) list" where
  "getDirections pc =
     (if king pc then [(1, -1), (1, 1), (-1, -1), (-1, 1)]
      else if player pc = Light then [(-1, -1), (-1, 1)] else [(1, -1), (1, 1)])"

text \<open>The body of the \<open>for\<close> loop of \<open>getSinglePieceCaptures\<close>, over the remaining directions.\<close>

fun captureLoop ::
  "board \<Rightarrow> int \<Rightarrow> int \<Rightarrow> piece \<Rightarrow> (int \<times> int) list \<Rightarrow> move list \<Rightarrow> fault + move list"
where
  "captureLoop b row col pc [] moves = Inr moves"
| "captureLoop b row col pc ((dr, dc) # ds) moves =
     (let middleRow = row + dr; middleCol = col + dc;
          targetRow = row + dr * 2; targetCol = col + dc * 2
      in if \<not> isInside middleRow middleCol \<or> \<not> isInside targetRow targetCol
         then captureLoop b row col pc ds moves
         else (case cellAt b middleRow middleCol of
                 Inl e \<Rightarrow> Inl e
               | Inr None \<Rightarrow> captureLoop b row col pc ds moves
               | Inr (Some middlePiece) \<Rightarrow>
                   if player middlePiece = player pc then captureLoop b row col pc ds moves
                   else (case cellAt b targetRow targetCol of
                           Inl e \<Rightarrow> Inl e
                         | Inr (Some t) \<Rightarrow> captureLoop b row col pc ds moves
                         | Inr None \<Rightarrow>
                             captureLoop b row col pc ds
                               (moves @ [\<lparr>pieceId = pid pc, fromSq = (row, col),
                                          toSq = (targetRow, targetCol),
                                          capture = Some (middleRow, middleCol)\<rparr>]))))"

definition getSinglePieceCaptures :: "board \<Rightarrow> int \<Rightarrow> int \<Rightarrow> piece \<Rightarrow> fault + move list" where
  "getSinglePieceCaptures b row col pc = captureLoop b row col pc (getDirections pc) []"

fun slideLoop ::
  "board \<Rightarrow> int \<Rightarrow> int \<Rightarrow> piece \<Rightarrow> (int \<times> int) list \<Rightarrow> move list \<Rightarrow> fault + move list"
where
  "slideLoop b row col pc [] moves = Inr moves"
| "slideLoop b row col pc ((dr, dc) # ds) moves =
     (let targetRow = row + dr; targetCol = col + dc
      in if \<not> isInside targetRow targetCol then slideLoop b row col pc ds moves
         else (case cellAt b targetRow targetCol of
                 Inl e \<Rightarrow> Inl e
               | Inr (Some t) \<Rightarrow> slideLoop b row col pc ds moves
               | Inr None \<Rightarrow>
                   slideLoop b row col pc ds
                     (moves @ [\<lparr>pieceId = pid pc, fromSq = (row, col),
                                toSq = (targetRow, targetCol), capture = None\<rparr>])))"

definition getSinglePieceSlides :: "board \<Rightarrow> int \<Rightarrow> int \<Rightarrow> piece \<Rightarrow> fault + move list" where
  "getSinglePieceSlides b row col pc = slideLoop b row col pc (getDirections pc) []"

text \<open>
  The squares in the order of the nested loops \<open>for row = 0..7, for col = 0..7\<close>.
\<close>

definition allSquares :: "(int \<times> int) list" where
  "allSquares = concat (map (\<lambda>row. map (\<lambda>col. (row, col)) [0, 1, 2, 3, 4, 5, 6, 7])
                            [0, 1, 2, 3, 4, 5, 6, 7])"

text \<open>\<open>findPiece\<close>: the first square, in scan order, that holds a piece with the given id.\<close>

fun findLoop :: "int \<Rightarrow> board \<Rightarrow> (int \<times> int) list \<Rightarrow> fault + (int \<times> int \<times> piece) option" where
  "findLoop wanted b [] = Inr None"
| "findLoop wanted b ((row, col) # sqs) =
     (case cellAt b row col of
        Inl e \<Rightarrow> Inl e
      | Inr None \<Rightarrow> findLoop wanted b sqs
      | Inr (Some pc) \<Rightarrow>
          if pid pc = wanted then Inr (Some (row, col, pc)) else findLoop wanted b sqs)"

definition findPiece :: "int \<Rightarrow> board \<Rightarrow> fault + (int \<times> int \<times> piece) option" where
  "findPiece wanted b = findLoop wanted b allSquares"

text \<open>
  The scan of \<open>getLegalMoves\<close>, with its two accumulators \<open>captures\<close> and \<open>slides\<close>.
\<close>

fun scanLoop ::
  "board \<Rightarrow> player \<Rightarrow> (int \<times> int) list \<Rightarrow> move list \<Rightarrow> move list
     \<Rightarrow> fault + (move list \<times> move list)"
where
  "scanLoop b p [] captures slides = Inr (captures, slides)"
| "scanLoop b p ((row, col) # sqs) captures slides =
     (case cellAt b row col of
        Inl e \<Rightarrow> Inl e
      | Inr None \<Rightarrow> scanLoop b p sqs captures slides
      | Inr (Some pc) \<Rightarrow>
          if player pc \<noteq> p then scanLoop b p sqs captures slides
          else (case getSinglePieceCaptures b row col pc of
                  Inl e \<Rightarrow> Inl e
                | Inr pieceCaptures \<Rightarrow>
                    if pieceCaptures \<noteq> [] then scanLoop b p sqs (captures @ pieceCaptures) slides
                    else (case getSinglePieceSlides b row col pc of
                            Inl e \<Rightarrow> Inl e
                          | Inr pieceSlides \<Rightarrow>
                              scanLoop b p sqs captures (slides @ pieceSlides))))"

text \<open>
  \<open>if (forcedPieceId)\<close> tests the truthiness of a \<open>number | null\<close>: \<open>null\<close> and \<open>0\<close>
  are both falsy.
\<close>

definition truthyId :: "int option \<Rightarrow> bool" where
  "truthyId v = (case v of None \<Rightarrow> False | Some n \<Rightarrow> n \<noteq> 0)"

definition getLegalMoves :: "board \<Rightarrow> player \<Rightarrow> int option \<Rightarrow> fault + move list" where
  "getLegalMoves b p forcedId =
     (if truthyId forcedId
      then (case findPiece (the forcedId) b of
              Inl e \<Rightarrow> Inl e
            | Inr None \<Rightarrow> Inr []
            | Inr (Some (row, col, pc)) \<Rightarrow> getSinglePieceCaptures b row col pc)
      else (case scanLoop b p allSquares [] [] of
              Inl e \<Rightarrow> Inl e
            | Inr (captures, slides) \<Rightarrow> Inr (if captures \<noteq> [] then captures else slides)))"

section \<open>Move applier\<close>

text \<open>
  \<open>cloneBoard\<close> builds new row arrays and a new object \<open>{ ...piece }\<close> for every piece.
  On values this is the identity; the store-level model further down shows what is new.
\<close>

definition cloneBoard :: "board \<Rightarrow> board" where
  "cloneBoard b =
     map (\<lambda>row. map (\<lambda>c. case c of
                           None \<Rightarrow> None
                         | Some pc \<Rightarrow> Some \<lparr>pid = pid pc, player = player pc, king = king pc\<rparr>) row) b"

text \<open>The block \<open>if (move.capture) { ... }\<close>: the board after it and \<open>capturedPieceId\<close>.\<close>

definition captureStep :: "board \<Rightarrow> (int \<times> int) option \<Rightarrow> fault + (board \<times> int option)" where
  "captureStep b cap =
     (case cap of
        None \<Rightarrow> Inr (b, None)
      | Some (capRow, capCol) \<Rightarrow>
          (case cellAt b capRow capCol of
             Inl e \<Rightarrow> Inl e
           | Inr captured \<Rightarrow>
               (case setCell b capRow capCol None of
                  Inl e \<Rightarrow> Inl e
                | Inr b' \<Rightarrow> Inr (b', map_option pid captured))))"

text \<open>
  \<open>crowns\<close> is the test of the promotion block (the piece is not a king and \<open>toRow\<close>
  is the far rank of its colour).
  \<open>movingPiece.king = true\<close> changes the one object that the clone holds for the moving
  piece. After the writes above that object sits on the square \<open>to\<close>, unless the capture
  block has just cleared that very square; so on values the assignment rewrites the cell
  at \<open>to\<close> in the first case and leaves the board alone in the second.
\<close>

definition crowns :: "piece \<Rightarrow> int \<Rightarrow> bool" where
  "crowns movingPiece toRow \<longleftrightarrow>
     \<not> king movingPiece \<and>
     ((player movingPiece = Light \<and> toRow = 0) \<or> (player movingPiece = Dark \<and> toRow = 7))"

definition applyMove :: "board \<Rightarrow> move \<Rightarrow> player \<Rightarrow> fault + board appliedMove" where
  "applyMove b m cur =
     (let nextBoard = cloneBoard b;
          (fromRow, fromCol) = fromSq m;
          (toRow, toCol) = toSq m
      in case cellAt nextBoard fromRow fromCol of
           Inl e \<Rightarrow> Inl e
         | Inr None \<Rightarrow>
             Inr \<lparr>board = nextBoard, currentPlayer = cur, forcedPieceId = None,
                  capturedPieceId = None, promoted = False\<rparr>
         | Inr (Some movingPiece) \<Rightarrow>
             (case setCell nextBoard fromRow fromCol None of
                Inl e \<Rightarrow> Inl e
              | Inr b1 \<Rightarrow>
             (case setCell b1 toRow toCol (Some movingPiece) of
                Inl e \<Rightarrow> Inl e
              | Inr b2 \<Rightarrow>
             (case captureStep b2 (capture m) of
                Inl e \<Rightarrow> Inl e
              | Inr (b3, captured) \<Rightarrow>
                 (let crowned = crowns movingPiece toRow;
                      movingPiece' = (if crowned then movingPiece\<lparr>king := True\<rparr> else movingPiece);
                      b4 = (if crowned \<and> capture m \<noteq> Some (toRow, toCol)
                            then b3[nat toRow := (b3 ! nat toRow)[nat toCol := Some movingPiece']]
                            else b3)
                  in if capture m \<noteq> None \<and> \<not> crowned
                     then (case getSinglePieceCaptures b4 toRow toCol movingPiece' of
                             Inl e \<Rightarrow> Inl e
                           | Inr followups \<Rightarrow>
                               if followups \<noteq> []
                               then Inr \<lparr>board = b4, currentPlayer = cur,
                                         forcedPieceId = Some (pid movingPiece'),
                                         capturedPieceId = captured, promoted = crowned\<rparr>
                               else Inr \<lparr>board = b4, currentPlayer = otherPlayer cur,
                                         forcedPieceId = None,
                                         capturedPieceId = captured, promoted = crowned\<rparr>)
                     else Inr \<lparr>board = b4, currentPlayer = otherPlayer cur,
                               forcedPieceId = None,
                               capturedPieceId = captured, promoted = crowned\<rparr>)))))"

section \<open>Numbers and the random source\<close>

text \<open>
  Scores are doubles that may be \<open>-Infinity\<close> or \<open>Infinity\<close> (the initial best score and
  the initial search window); finite values are taken as exact reals.
  A random source \<open>() => number\<close> is the sequence of the values its successive calls return,
  together with the number of calls made so far.
\<close>

datatype jsNumber = NegInf | Fin real | PosInf

fun numLess :: "jsNumber \<Rightarrow> jsNumber \<Rightarrow> bool" where
  "numLess NegInf NegInf = False"
| "numLess NegInf _ = True"
| "numLess (Fin x) (Fin y) = (x < y)"
| "numLess (Fin x) PosInf = True"
| "numLess (Fin x) NegInf = False"
| "numLess PosInf _ = False"

definition numLe :: "jsNumber \<Rightarrow> jsNumber \<Rightarrow> bool" where
  "numLe a b \<longleftrightarrow> a = b \<or> numLess a b"

definition numMax :: "jsNumber \<Rightarrow> jsNumber \<Rightarrow> jsNumber" where
  "numMax a b = (if numLess a b then b else a)"

definition numMin :: "jsNumber \<Rightarrow> jsNumber \<Rightarrow> jsNumber" where
  "numMin a b = (if numLess b a then b else a)"

text \<open>\<open>Math.abs(a - b) < 0.001\<close>: false as soon as the difference is infinite or \<open>NaN\<close>.\<close>

fun numClose :: "jsNumber \<Rightarrow> jsNumber \<Rightarrow> bool" where
  "numClose (Fin x) (Fin y) = (\<bar>x - y\<bar> < 0.001)"
| "numClose _ _ = False"

type_synonym randomSource = "nat \<Rightarrow> real"

section \<open>Greedy scorer and selector\<close>

definition scoreMove :: "move \<Rightarrow> board \<Rightarrow> player \<Rightarrow> randomSource \<Rightarrow> nat \<Rightarrow> fault + (real \<times> nat)" where
  "scoreMove m b p random n =
     (let score0 = random n * 0.2
      in case cellAt b (fst (fromSq m)) (snd (fromSq m)) of
           Inl e \<Rightarrow> Inl e
         | Inr movingPiece \<Rightarrow>
             (case (case capture m of
                      None \<Rightarrow> Inr score0
                    | Some (capRow, capCol) \<Rightarrow>
                        (case cellAt b capRow capCol of
                           Inl e \<Rightarrow> Inl e
                         | Inr captured \<Rightarrow>
                             Inr (score0 + 6 +
                                  (case captured of
                                     None \<Rightarrow> 0
                                   | Some cp \<Rightarrow> if king cp then 3 else 0)))) of
                Inl e \<Rightarrow> Inl e
              | Inr score1 \<Rightarrow>
                  (let targetRow = fst (toSq m);
                       score2 =
                         (case movingPiece of
                            None \<Rightarrow> score1
                          | Some mp \<Rightarrow>
                              if king mp then score1
                              else if (p = Light \<and> targetRow = 0) \<or> (p = Dark \<and> targetRow = 7)
                                   then score1 + 4
                                   else (let advance = (if p = Light then fst (fromSq m) - targetRow
                                                        else targetRow - fst (fromSq m))
                                         in score1 + real_of_int advance * 0.55));
                       centerDistance = \<bar>real_of_int (fst (toSq m)) - 3.5\<bar>
                                        + \<bar>real_of_int (snd (toSq m)) - 3.5\<bar>
                   in Inr (score2 + (7 - centerDistance) * 0.12, Suc n))))"

text \<open>The \<open>for\<close> loop of \<open>chooseBestMove\<close> with its variables \<open>bestMove\<close> and \<open>bestScore\<close>.\<close>

fun bestLoop ::
  "move list \<Rightarrow> board \<Rightarrow> player \<Rightarrow> randomSource \<Rightarrow> nat \<Rightarrow> move \<Rightarrow> jsNumber \<Rightarrow> fault + move"
where
  "bestLoop [] b p random n bestMove bestScore = Inr bestMove"
| "bestLoop (m # ms) b p random n bestMove bestScore =
     (case scoreMove m b p random n of
        Inl e \<Rightarrow> Inl e
      | Inr (score, n') \<Rightarrow>
          if numLess bestScore (Fin score) then bestLoop ms b p random n' m (Fin score)
          else bestLoop ms b p random n' bestMove bestScore)"

definition chooseBestMove ::
  "move list \<Rightarrow> board \<Rightarrow> player \<Rightarrow> randomSource \<Rightarrow> fault + move option"
where
  "chooseBestMove moves b p random =
     (if moves = [] then Inr None
      else map_sum id Some (bestLoop moves b p random 0 (hd moves) NegInf))"

section \<open>Evaluator and search\<close>

text \<open>The per-square loop of \<open>evaluateBoard\<close>, accumulating \<open>score\<close>.\<close>

fun evalLoop :: "board \<Rightarrow> player \<Rightarrow> (int \<times> int) list \<Rightarrow> real \<Rightarrow> fault + real" where
  "evalLoop b maxP [] score = Inr score"
| "evalLoop b maxP ((row, col) # sqs) score =
     (case cellAt b row col of
        Inl e \<Rightarrow> Inl e
      | Inr None \<Rightarrow> evalLoop b maxP sqs score
      | Inr (Some pc) \<Rightarrow>
          (let promotionDistance = (if player pc = Light then row else 7 - row);
               advancement = real_of_int (7 - promotionDistance) / 7;
               centerDistance = \<bar>real_of_int row - 3.5\<bar> + \<bar>real_of_int col - 3.5\<bar>;
               centerControl = (7 - centerDistance) * 0.05;
               pieceValue = (if king pc then 3.8 else 1.2) + advancement * 0.35 + centerControl
           in evalLoop b maxP sqs (score + (if player pc = maxP then pieceValue else - pieceValue))))"

definition evaluateBoard :: "board \<Rightarrow> player \<Rightarrow> fault + real" where
  "evaluateBoard b maxP =
     (case evalLoop b maxP allSquares 0 of
        Inl e \<Rightarrow> Inl e
      | Inr score \<Rightarrow>
          (case getLegalMoves b maxP None of
             Inl e \<Rightarrow> Inl e
           | Inr mine \<Rightarrow>
               (case getLegalMoves b (otherPlayer maxP) None of
                  Inl e \<Rightarrow> Inl e
                | Inr theirs \<Rightarrow>
                    Inr (score + (real (length mine) - real (length theirs)) * 0.06))))"

text \<open>
  \<open>minimax\<close> and its two \<open>for\<close> loops (\<open>maxLoop\<close> for the maximizing player, \<open>minLoop\<close>
  for the other one). A loop carries \<open>value\<close>, \<open>alpha\<close>, \<open>beta\<close> and the number of random
  draws made so far; \<open>break\<close> is the return on \<open>beta <= alpha\<close>.
\<close>

function minimax ::
    "board \<Rightarrow> player \<Rightarrow> int option \<Rightarrow> player \<Rightarrow> int \<Rightarrow> jsNumber \<Rightarrow> jsNumber \<Rightarrow> randomSource \<Rightarrow> nat
       \<Rightarrow> fault + (jsNumber \<times> nat)"
  and maxLoop ::
    "board \<Rightarrow> player \<Rightarrow> player \<Rightarrow> int \<Rightarrow> move list \<Rightarrow> jsNumber \<Rightarrow> jsNumber \<Rightarrow> jsNumber \<Rightarrow> randomSource \<Rightarrow> nat
       \<Rightarrow> fault + (jsNumber \<times> nat)"
  and minLoop ::
    "board \<Rightarrow> player \<Rightarrow> player \<Rightarrow> int \<Rightarrow> move list \<Rightarrow> jsNumber \<Rightarrow> jsNumber \<Rightarrow> jsNumber \<Rightarrow> randomSource \<Rightarrow> nat
       \<Rightarrow> fault + (jsNumber \<times> nat)"
where
  "minimax b cur forced maxP depth alpha beta random n =
     (case getLegalMoves b cur forced of
        Inl e \<Rightarrow> Inl e
      | Inr moves \<Rightarrow>
          if moves = []
          then Inr (Fin (if cur = maxP then - 1000 - real_of_int depth
                         else 1000 + real_of_int depth), n)
          else if depth \<le> 0
          then (case evaluateBoard b maxP of
                  Inl e \<Rightarrow> Inl e
                | Inr s \<Rightarrow> Inr (Fin (s + random n * 0.01), Suc n))
          else if cur = maxP
          then maxLoop b cur maxP depth moves NegInf alpha beta random n
          else minLoop b cur maxP depth moves PosInf alpha beta random n)"
| "maxLoop b cur maxP depth [] val alpha beta random n = Inr (val, n)"
| "maxLoop b cur maxP depth (m # ms) val alpha beta random n =
     (case applyMove b m cur of
        Inl e \<Rightarrow> Inl e
      | Inr next \<Rightarrow>
          (case minimax (board next) (currentPlayer next) (forcedPieceId next) maxP
                        (depth - 1) alpha beta random n of
             Inl e \<Rightarrow> Inl e
           | Inr (v, n') \<Rightarrow>
               (let val' = numMax val v; alpha' = numMax alpha val'
                in if numLe beta alpha' then Inr (val', n')
                   else maxLoop b cur maxP depth ms val' alpha' beta random n')))"
| "minLoop b cur maxP depth [] val alpha beta random n = Inr (val, n)"
| "minLoop b cur maxP depth (m # ms) val alpha beta random n =
     (case applyMove b m cur of
        Inl e \<Rightarrow> Inl e
      | Inr next \<Rightarrow>
          (case minimax (board next) (currentPlayer next) (forcedPieceId next) maxP
                        (depth - 1) alpha beta random n of
             Inl e \<Rightarrow> Inl e
           | Inr (v, n') \<Rightarrow>
               (let val' = numMin val v; beta' = numMin beta val'
                in if numLe beta' alpha then Inr (val', n')
                   else minLoop b cur maxP depth ms val' alpha beta' random n')))"
  by pat_completeness auto
termination
  by (relation "inv_image (less_than <*lex*> less_than)
        (\<lambda>x. case x of
           Inl (b, cur, forced, maxP, depth, rest) \<Rightarrow>
             (if depth \<le> 0 then 0 else 2 * nat depth + 2, 0)
         | Inr (Inl (b, cur, maxP, depth, ms, rest)) \<Rightarrow> (2 * nat depth + 1, length ms)
         | Inr (Inr (b, cur, maxP, depth, ms, rest)) \<Rightarrow> (2 * nat depth + 1, length ms))")
     auto

definition HARD_SEARCH_DEPTH :: int where
  "HARD_SEARCH_DEPTH = 4"

text \<open>The \<open>for\<close> loop of \<open>chooseBestLookaheadMove\<close>.\<close>

fun lookaheadLoop ::
  "move list \<Rightarrow> board \<Rightarrow> player \<Rightarrow> randomSource \<Rightarrow> nat \<Rightarrow> move \<Rightarrow> jsNumber \<Rightarrow> fault + move"
where
  "lookaheadLoop [] b p random n bestMove bestScore = Inr bestMove"
| "lookaheadLoop (m # ms) b p random n bestMove bestScore =
     (case applyMove b m p of
        Inl e \<Rightarrow> Inl e
      | Inr next \<Rightarrow>
          (case minimax (board next) (currentPlayer next) (forcedPieceId next) p
                        (HARD_SEARCH_DEPTH - 1) NegInf PosInf random n of
             Inl e \<Rightarrow> Inl e
           | Inr (score, n') \<Rightarrow>
               if numLess bestScore score then lookaheadLoop ms b p random n' m score
               else if numClose score bestScore
               then (if random n' > 0.5 then lookaheadLoop ms b p random (Suc n') m bestScore
                     else lookaheadLoop ms b p random (Suc n') bestMove bestScore)
               else lookaheadLoop ms b p random n' bestMove bestScore))"

text \<open>
  \<open>moves[0]\<close> of an empty array is \<open>undefined\<close>; the loop then does not run and the
  function returns it. \<open>chooseMoveBySkill\<close> never calls it so.
\<close>

definition chooseBestLookaheadMove ::
  "move list \<Rightarrow> board \<Rightarrow> player \<Rightarrow> randomSource \<Rightarrow> fault + move option"
where
  "chooseBestLookaheadMove moves b p random =
     (if moves = [] then Inr None
      else map_sum id Some (lookaheadLoop moves b p random 0 (hd moves) NegInf))"

text \<open>
  Modelled from the spec: the declaration of \<open>AISkill\<close> is not among the sources; the
  specification names the three policies easy, medium and hard, and the code sends every
  skill other than \<open>"easy"\<close> and \<open>"medium"\<close> to the lookahead search.
\<close>

datatype aiSkill = Easy | Medium | Hard

text \<open>
  \<open>moves[index]\<close> with a negative index (a random source that returns a negative number)
  is \<open>undefined\<close>, rendered as \<open>None\<close> like \<open>null\<close>.
\<close>

definition chooseMoveBySkill ::
  "aiSkill \<Rightarrow> move list \<Rightarrow> board \<Rightarrow> player \<Rightarrow> randomSource \<Rightarrow> fault + move option"
where
  "chooseMoveBySkill skill moves b p random =
     (if moves = [] then Inr None
      else if skill = Easy
      then (let index = min (int (length moves) - 1) \<lfloor>random 0 * real (length moves)\<rfloor>
            in Inr (if 0 \<le> index then Some (moves ! nat index) else None))
      else if skill = Medium then chooseBestMove moves b p random
      else chooseBestLookaheadMove moves b p random)"

section \<open>The move applier on a store of objects\<close>

text \<open>
  The value-level \<open>applyMove\<close> above cannot say what is shared between two boards.
  Here the same function works on a store of objects: piece objects, row arrays (whose
  elements are \<open>null\<close> or a reference to a piece object) and board arrays (whose elements
  are references to row arrays). A \<open>Board\<close> is the address of a board array. New objects
  are placed at the address \<open>lim\<close>, which then grows.
\<close>

type_synonym addr = nat

record store =
  pieces :: "addr \<Rightarrow> piece"
  rowArrays :: "addr \<Rightarrow> addr option list"
  boardArrays :: "addr \<Rightarrow> addr list"
  lim :: addr

text \<open>Object creation: \<open>{ ...piece }\<close>, the array a \<open>row.map\<close> returns, the array \<open>board.map\<close> returns.\<close>

definition allocPiece :: "store \<Rightarrow> piece \<Rightarrow> store \<times> addr" where
  "allocPiece s pc = (s\<lparr>pieces := (pieces s)(lim s := pc), lim := Suc (lim s)\<rparr>, lim s)"

definition allocRow :: "store \<Rightarrow> addr option list \<Rightarrow> store \<times> addr" where
  "allocRow s cells = (s\<lparr>rowArrays := (rowArrays s)(lim s := cells), lim := Suc (lim s)\<rparr>, lim s)"

definition allocBoard :: "store \<Rightarrow> addr list \<Rightarrow> store \<times> addr" where
  "allocBoard s rows = (s\<lparr>boardArrays := (boardArrays s)(lim s := rows), lim := Suc (lim s)\<rparr>, lim s)"

text \<open>\<open>cloneBoard\<close>: \<open>board.map((row) => row.map((piece) => piece ? { ...piece } : null))\<close>.\<close>

fun cloneCells :: "store \<Rightarrow> addr option list \<Rightarrow> store \<times> addr option list" where
  "cloneCells s [] = (s, [])"
| "cloneCells s (None # cs) = (let (s', cs') = cloneCells s cs in (s', None # cs'))"
| "cloneCells s (Some a # cs) =
     (let (s1, a') = allocPiece s \<lparr>pid = pid (pieces s a), player = player (pieces s a),
                                    king = king (pieces s a)\<rparr>;
          (s2, cs') = cloneCells s1 cs
      in (s2, Some a' # cs'))"

fun cloneRows :: "store \<Rightarrow> addr list \<Rightarrow> store \<times> addr list" where
  "cloneRows s [] = (s, [])"
| "cloneRows s (r # rs) =
     (let (s1, cells') = cloneCells s (rowArrays s r);
          (s2, r') = allocRow s1 cells';
          (s3, rs') = cloneRows s2 rs
      in (s3, r' # rs'))"

definition cloneBoardS :: "store \<Rightarrow> addr \<Rightarrow> store \<times> addr" where
  "cloneBoardS s b = (let (s1, rows') = cloneRows s (boardArrays s b) in allocBoard s1 rows')"

text \<open>Reading and writing \<open>board[row][col]\<close> through the references.\<close>

definition cellAtS :: "store \<Rightarrow> addr \<Rightarrow> int \<Rightarrow> int \<Rightarrow> fault + addr option" where
  "cellAtS s b row col =
     (let rows = boardArrays s b
      in if 0 \<le> row \<and> row < int (length rows)
         then (let cells = rowArrays s (rows ! nat row)
               in Inr (if 0 \<le> col \<and> col < int (length cells) then cells ! nat col else None))
         else Inl TypeError)"

definition setCellS :: "store \<Rightarrow> addr \<Rightarrow> int \<Rightarrow> int \<Rightarrow> addr option \<Rightarrow> fault + store" where
  "setCellS s b row col v =
     (let rows = boardArrays s b
      in if 0 \<le> row \<and> row < int (length rows)
         then (let r = rows ! nat row; cells = rowArrays s r
               in if 0 \<le> col \<and> col < int (length cells)
                  then Inr (s\<lparr>rowArrays := (rowArrays s)(r := cells[nat col := v])\<rparr>)
                  else Inl OffGridWrite)
         else Inl TypeError)"

text \<open>The value a board has in a store: what reading all its cells, and the fields of the pieces in them, gives.\<close>

definition snapshot :: "store \<Rightarrow> addr \<Rightarrow> board" where
  "snapshot s b = map (\<lambda>r. map (map_option (pieces s)) (rowArrays s r)) (boardArrays s b)"

definition captureStepS ::
  "store \<Rightarrow> addr \<Rightarrow> (int \<times> int) option \<Rightarrow> store \<times> (fault + int option)"
where
  "captureStepS s b cap =
     (case cap of
        None \<Rightarrow> (s, Inr None)
      | Some (capRow, capCol) \<Rightarrow>
          (case cellAtS s b capRow capCol of
             Inl e \<Rightarrow> (s, Inl e)
           | Inr captured \<Rightarrow>
               (case setCellS s b capRow capCol None of
                  Inl e \<Rightarrow> (s, Inl e)
                | Inr s' \<Rightarrow> (s', Inr (map_option (\<lambda>a. pid (pieces s' a)) captured)))))"

text \<open>
  \<open>applyMove\<close> on the store. It returns the store it leaves, also when it raises.
  \<open>movingPiece\<close> is a reference, and \<open>movingPiece.king = true\<close> writes the object it
  points to. \<open>getSinglePieceCaptures\<close> only reads; it is run on the value \<open>nextBoard\<close>
  has at the time of the call.
\<close>

definition applyMoveS ::
  "store \<Rightarrow> addr \<Rightarrow> move \<Rightarrow> player \<Rightarrow> store \<times> (fault + addr appliedMove)"
where
  "applyMoveS s b m cur =
     (let (s0, nextBoard) = cloneBoardS s b;
          (fromRow, fromCol) = fromSq m;
          (toRow, toCol) = toSq m
      in case cellAtS s0 nextBoard fromRow fromCol of
           Inl e \<Rightarrow> (s0, Inl e)
         | Inr None \<Rightarrow>
             (s0, Inr \<lparr>board = nextBoard, currentPlayer = cur, forcedPieceId = None,
                       capturedPieceId = None, promoted = False\<rparr>)
         | Inr (Some movingPiece) \<Rightarrow>
             (case setCellS s0 nextBoard fromRow fromCol None of
                Inl e \<Rightarrow> (s0, Inl e)
              | Inr s1 \<Rightarrow>
             (case setCellS s1 nextBoard toRow toCol (Some movingPiece) of
                Inl e \<Rightarrow> (s1, Inl e)
              | Inr s2 \<Rightarrow>
             (case captureStepS s2 nextBoard (capture m) of
                (s3, Inl e) \<Rightarrow> (s3, Inl e)
              | (s3, Inr captured) \<Rightarrow>
                 (let crowned = crowns (pieces s3 movingPiece) toRow;
                      s4 = (if crowned
                            then s3\<lparr>pieces := (pieces s3)
                                     (movingPiece := (pieces s3 movingPiece)\<lparr>king := True\<rparr>)\<rparr>
                            else s3)
                  in if capture m \<noteq> None \<and> \<not> crowned
                     then (case getSinglePieceCaptures (snapshot s4 nextBoard) toRow toCol
                                  (pieces s4 movingPiece) of
                             Inl e \<Rightarrow> (s4, Inl e)
                           | Inr followups \<Rightarrow>
                               if followups \<noteq> []
                               then (s4, Inr \<lparr>board = nextBoard, currentPlayer = cur,
                                         forcedPieceId = Some (pid (pieces s4 movingPiece)),
                                         capturedPieceId = captured, promoted = crowned\<rparr>)
                               else (s4, Inr \<lparr>board = nextBoard, currentPlayer = otherPlayer cur,
                                         forcedPieceId = None,
                                         capturedPieceId = captured, promoted = crowned\<rparr>))
                     else (s4, Inr \<lparr>board = nextBoard, currentPlayer = otherPlayer cur,
                               forcedPieceId = None,
                               capturedPieceId = captured, promoted = crowned\<rparr>))))))"

section \<open>Notions used to state the properties\<close>

text \<open>
  The pieces of a player among the given squares, in scan order, each with its square.
\<close>

definition piecesOn :: "board \<Rightarrow> player \<Rightarrow> (int \<times> int) list \<Rightarrow> (int \<times> int \<times> piece) list" where
  "piecesOn b p sqs =
     concat (map (\<lambda>(row, col). case cellAt b row col of
                                  Inr (Some pc) \<Rightarrow> if player pc = p then [(row, col, pc)] else []
                                | _ \<Rightarrow> []) sqs)"

definition piecesOf :: "board \<Rightarrow> player \<Rightarrow> (int \<times> int \<times> piece) list" where
  "piecesOf b p = piecesOn b p allSquares"

text \<open>
  The capture candidates and the slide candidates of one piece, as the generator computes
  them (the empty list stands in where the generator raises, which it never does on an
  8x8 board, see \<open>getSinglePieceCaptures_total\<close> and \<open>getSinglePieceSlides_total\<close>).
\<close>

definition capturesOf :: "board \<Rightarrow> int \<times> int \<times> piece \<Rightarrow> move list" where
  "capturesOf b x =
     (case x of (row, col, pc) \<Rightarrow>
        (case getSinglePieceCaptures b row col pc of Inr ms \<Rightarrow> ms | Inl e \<Rightarrow> []))"

definition slidesOf :: "board \<Rightarrow> int \<times> int \<times> piece \<Rightarrow> move list" where
  "slidesOf b x =
     (case x of (row, col, pc) \<Rightarrow>
        (case getSinglePieceSlides b row col pc of Inr ms \<Rightarrow> ms | Inl e \<Rightarrow> []))"

text \<open>Some piece with the given id stands on the board.\<close>

definition holdsId :: "board \<Rightarrow> int \<Rightarrow> bool" where
  "holdsId b i \<longleftrightarrow>
     (\<exists>(row, col) \<in> set allSquares.
        case cellAt b row col of Inr (Some pc) \<Rightarrow> pid pc = i | _ \<Rightarrow> False)"

text \<open>The promotion rank of a colour, and a capture square that is absent or on the grid.\<close>

definition farRank :: "player \<Rightarrow> int" where
  "farRank p = (if p = Light then 0 else 7)"

definition onBoard :: "(int \<times> int) option \<Rightarrow> bool" where
  "onBoard sq = (case sq of None \<Rightarrow> True | Some (row, col) \<Rightarrow> isInside row col)"

text \<open>
  A move all of whose squares are on the grid; a random source with values in \<open>[0, 1)\<close>;
  a move that changes the row by at most two, as every slide and every jump does.
\<close>

definition moveOnBoard :: "move \<Rightarrow> bool" where
  "moveOnBoard m \<longleftrightarrow>
     isInside (fst (fromSq m)) (snd (fromSq m)) \<and> isInside (fst (toSq m)) (snd (toSq m)) \<and>
     onBoard (capture m)"

definition unitRandom :: "randomSource \<Rightarrow> bool" where
  "unitRandom random \<longleftrightarrow> (\<forall>n. 0 \<le> random n \<and> random n < 1)"

definition jumpRows :: "move \<Rightarrow> bool" where
  "jumpRows m \<longleftrightarrow> \<bar>fst (toSq m) - fst (fromSq m)\<bar> \<le> 2"

text \<open>
  The three summands that \<open>scoreMove\<close> adds to the jitter: the capture bonus, the
  promotion or advancement term of a moving man, and the center-proximity term.
\<close>

definition centerTerm :: "int \<times> int \<Rightarrow> real" where
  "centerTerm sq = (7 - (\<bar>real_of_int (fst sq) - 3.5\<bar> + \<bar>real_of_int (snd sq) - 3.5\<bar>)) * 0.12"

definition captureTerm :: "board \<Rightarrow> move \<Rightarrow> real" where
  "captureTerm b m =
     (case capture m of
        None \<Rightarrow> 0
      | Some (capRow, capCol) \<Rightarrow>
          6 + (case b ! nat capRow ! nat capCol of
                 None \<Rightarrow> 0
               | Some cp \<Rightarrow> if king cp then 3 else 0))"

definition pieceTerm :: "board \<Rightarrow> move \<Rightarrow> player \<Rightarrow> real" where
  "pieceTerm b m p =
     (case b ! nat (fst (fromSq m)) ! nat (snd (fromSq m)) of
        None \<Rightarrow> 0
      | Some mp \<Rightarrow>
          if king mp then 0
          else if (p = Light \<and> fst (toSq m) = 0) \<or> (p = Dark \<and> fst (toSq m) = 7) then 4
          else real_of_int (if p = Light then fst (fromSq m) - fst (toSq m)
                            else fst (toSq m) - fst (fromSq m)) * 0.55)"

text \<open>
  Every object that exists at an address below \<open>L\<close> is the same in both stores; all the
  objects a board consists of (its array, its rows, the pieces in its cells) lie at or
  above \<open>L\<close>; the addresses of the objects a board consists of; a board all of whose
  objects exist in the store.
\<close>

definition unchangedBelow :: "addr \<Rightarrow> store \<Rightarrow> store \<Rightarrow> bool" where
  "unchangedBelow L s s' \<longleftrightarrow>
     (\<forall>a. a < L \<longrightarrow> pieces s' a = pieces s a \<and> rowArrays s' a = rowArrays s a \<and>
                  boardArrays s' a = boardArrays s a)"

definition freshBoard :: "addr \<Rightarrow> store \<Rightarrow> addr \<Rightarrow> bool" where
  "freshBoard L s b \<longleftrightarrow>
     L \<le> b \<and>
     (\<forall>r \<in> set (boardArrays s b). L \<le> r \<and> (\<forall>a. Some a \<in> set (rowArrays s r) \<longrightarrow> L \<le> a))"

definition boardAddrs :: "store \<Rightarrow> addr \<Rightarrow> addr list" where
  "boardAddrs s b =
     b # boardArrays s b @
     concat (map (\<lambda>r. concat (map (\<lambda>c. case c of None \<Rightarrow> [] | Some a \<Rightarrow> [a]) (rowArrays s r)))
                 (boardArrays s b))"

definition allocated :: "store \<Rightarrow> addr \<Rightarrow> bool" where
  "allocated s b \<longleftrightarrow> list_all (\<lambda>a. a < lim s) (boardAddrs s b)"

text \<open>
  The references held in the cells of a row and of a whole board, in order; a board none
  of whose rows and none of whose pieces is shared between two of its places; the value
  of a result whose board is a reference.
\<close>

definition refsOf :: "addr option list \<Rightarrow> addr list" where
  "refsOf cells = concat (map (\<lambda>c. case c of None \<Rightarrow> [] | Some a \<Rightarrow> [a]) cells)"

definition cellRefs :: "store \<Rightarrow> addr \<Rightarrow> addr list" where
  "cellRefs s b = concat (map (\<lambda>r. refsOf (rowArrays s r)) (boardArrays s b))"

definition separate :: "store \<Rightarrow> addr \<Rightarrow> bool" where
  "separate s b \<longleftrightarrow> distinct (boardArrays s b) \<and> distinct (cellRefs s b)"

definition appliedValue :: "store \<Rightarrow> addr appliedMove \<Rightarrow> board appliedMove" where
  "appliedValue s r =
     \<lparr>board = snapshot s (board r), currentPlayer = currentPlayer r,
      forcedPieceId = forcedPieceId r, capturedPieceId = capturedPieceId r,
      promoted = promoted r\<rparr>"

section \<open>Positions of the engine's tests (src/game/engine.test.ts)\<close>

definition emptyBoard :: board where
  "emptyBoard = replicate 8 (replicate 8 None)"

definition place :: "board \<Rightarrow> int \<Rightarrow> int \<Rightarrow> piece \<Rightarrow> board" where
  "place b row col pc = b[nat row := (b ! nat row)[nat col := Some pc]]"

text \<open>"enforces mandatory captures over slide moves"\<close>

definition mandatoryBoard :: board where
  "mandatoryBoard =
     place (place (place emptyBoard 5 2 \<lparr>pid = 1, player = Light, king = False\<rparr>)
                  4 3 \<lparr>pid = 2, player = Dark, king = False\<rparr>)
           5 6 \<lparr>pid = 3, player = Light, king = False\<rparr>"

text \<open>"uses random move selection for easy AI"\<close>

definition loneBoard :: board where
  "loneBoard = place emptyBoard 5 2 \<lparr>pid = 50, player = Light, king = False\<rparr>"

text \<open>"forces multi-jump continuation with the same piece", before and after the first jump\<close>

definition chainBoard :: board where
  "chainBoard =
     place (place (place emptyBoard 5 0 \<lparr>pid = 10, player = Light, king = False\<rparr>)
                  4 1 \<lparr>pid = 20, player = Dark, king = False\<rparr>)
           2 3 \<lparr>pid = 21, player = Dark, king = False\<rparr>"

definition chainNext :: board where
  "chainNext =
     place (place emptyBoard 3 2 \<lparr>pid = 10, player = Light, king = False\<rparr>)
           2 3 \<lparr>pid = 21, player = Dark, king = False\<rparr>"

text \<open>"ends turn when a capture crowns a piece"\<close>

definition crownBoard :: board where
  "crownBoard =
     place (place (place emptyBoard 2 1 \<lparr>pid = 30, player = Light, king = False\<rparr>)
                  1 2 \<lparr>pid = 31, player = Dark, king = False\<rparr>)
           1 4 \<lparr>pid = 32, player = Dark, king = False\<rparr>"

text \<open>"hard AI avoids obvious one-turn blunders" has a lone dark man; here it is one step from its far rank.\<close>

definition darkRunBoard :: board where
  "darkRunBoard = place emptyBoard 6 1 \<lparr>pid = 60, player = Dark, king = False\<rparr>"

text \<open>A dark man next to row 0, for a call of \<open>applyMove\<close> in which light moves it there.\<close>

definition strayBoard :: board where
  "strayBoard = place emptyBoard 1 0 \<lparr>pid = 7, player = Dark, king = False\<rparr>"

text \<open>"prefers capture moves when scoring AI options"\<close>

definition greedyBoard :: board where
  "greedyBoard =
     place (place emptyBoard 5 2 \<lparr>pid = 40, player = Light, king = False\<rparr>)
           4 3 \<lparr>pid = 41, player = Dark, king = False\<rparr>"

text \<open>
  A position for a capture entry that is no jump: the man on (2, 1) is listed with a
  capture that carries it five rows backwards to the corner (7, 0).
\<close>

definition longLeapBoard :: board where
  "longLeapBoard =
     place (place (place emptyBoard 2 1 \<lparr>pid = 40, player = Light, king = False\<rparr>)
                  4 3 \<lparr>pid = 41, player = Dark, king = False\<rparr>)
           1 2 \<lparr>pid = 42, player = Light, king = False\<rparr>"

text \<open>A store that holds a given board value, built from the empty store, for the test positions.\<close>

definition emptyStore :: store where
  "emptyStore = \<lparr>pieces = (\<lambda>a. \<lparr>pid = 0, player = Light, king = False\<rparr>),
                  rowArrays = (\<lambda>a. []), boardArrays = (\<lambda>a. []), lim = 0\<rparr>"

fun loadCells :: "store \<Rightarrow> cell list \<Rightarrow> store \<times> addr option list" where
  "loadCells s [] = (s, [])"
| "loadCells s (None # cs) = (let (s', cs') = loadCells s cs in (s', None # cs'))"
| "loadCells s (Some pc # cs) =
     (let (s1, a) = allocPiece s pc; (s2, cs') = loadCells s1 cs in (s2, Some a # cs'))"

fun loadRows :: "store \<Rightarrow> board \<Rightarrow> store \<times> addr list" where
  "loadRows s [] = (s, [])"
| "loadRows s (row # rows) =
     (let (s1, cells) = loadCells s row;
          (s2, r) = allocRow s1 cells;
          (s3, rs) = loadRows s2 rows
      in (s3, r # rs))"

definition loadBoard :: "store \<Rightarrow> board \<Rightarrow> store \<times> addr" where
  "loadBoard s b = (let (s1, rows) = loadRows s b in allocBoard s1 rows)"

definition crownStore :: store where
  "crownStore = fst (loadBoard emptyStore crownBoard)"

definition crownRef :: addr where
  "crownRef = snd (loadBoard emptyStore crownBoard)"

section \<open>Properties of the move generator\<close>

lemma cellAt_wf: "wfBoard b \<Longrightarrow> isInside row col \<Longrightarrow> cellAt b row col = Inr (b ! nat row ! nat col)"
  by (auto simp: wfBoard_def isInside_def cellAt_def Let_def)

lemma cellAt_wf_total: "wfBoard b \<Longrightarrow> isInside row col \<Longrightarrow> \<exists>c. cellAt b row col = Inr c"
  by (simp add: cellAt_wf)

lemma captureLoop_total:
  "wfBoard b \<Longrightarrow> \<exists>ms. captureLoop b row col pc ds acc = Inr ms"
proof (induction ds arbitrary: acc)
  case Nil
  then show ?case by simp
next
  case (Cons d ds)
  obtain dr dc where d: "d = (dr, dc)" by (cases d)
  show ?case
    using Cons.IH [OF Cons.prems] Cons.prems
    by (auto simp: d Let_def cellAt_wf split: option.splits sum.splits)
qed

lemma getSinglePieceCaptures_total:
  "wfBoard b \<Longrightarrow> \<exists>ms. getSinglePieceCaptures b row col pc = Inr ms"
  by (simp add: getSinglePieceCaptures_def captureLoop_total)

lemma slideLoop_total:
  "wfBoard b \<Longrightarrow> \<exists>ms. slideLoop b row col pc ds acc = Inr ms"
proof (induction ds arbitrary: acc)
  case Nil
  then show ?case by simp
next
  case (Cons d ds)
  obtain dr dc where d: "d = (dr, dc)" by (cases d)
  show ?case
    using Cons.IH [OF Cons.prems] Cons.prems
    by (auto simp: d Let_def cellAt_wf split: option.splits sum.splits)
qed

lemma getSinglePieceSlides_total:
  "wfBoard b \<Longrightarrow> \<exists>ms. getSinglePieceSlides b row col pc = Inr ms"
  by (simp add: getSinglePieceSlides_def slideLoop_total)

lemma captureLoop_inv:
  "captureLoop b row col pc ds acc = Inr ms \<Longrightarrow>
   (\<forall>m \<in> set acc. capture m \<noteq> None \<and> pieceId m = pid pc \<and> fromSq m = (row, col)) \<Longrightarrow>
   (\<forall>m \<in> set ms. capture m \<noteq> None \<and> pieceId m = pid pc \<and> fromSq m = (row, col))"
proof (induction ds arbitrary: acc)
  case Nil
  then show ?case by simp
next
  case (Cons d ds)
  obtain dr dc where d: "d = (dr, dc)" by (cases d)
  from Cons.prems show ?case
    unfolding d
    by (auto simp: Let_def split: if_splits option.splits sum.splits dest!: Cons.IH)
qed

lemma slideLoop_inv:
  "slideLoop b row col pc ds acc = Inr ms \<Longrightarrow>
   (\<forall>m \<in> set acc. capture m = None \<and> pieceId m = pid pc \<and> fromSq m = (row, col)) \<Longrightarrow>
   (\<forall>m \<in> set ms. capture m = None \<and> pieceId m = pid pc \<and> fromSq m = (row, col))"
proof (induction ds arbitrary: acc)
  case Nil
  then show ?case by simp
next
  case (Cons d ds)
  obtain dr dc where d: "d = (dr, dc)" by (cases d)
  from Cons.prems show ?case
    unfolding d
    by (auto simp: Let_def split: if_splits option.splits sum.splits dest!: Cons.IH)
qed

lemma capturesOf_are_captures:
  assumes "m \<in> set (capturesOf b (row, col, pc))"
  shows "capture m \<noteq> None \<and> pieceId m = pid pc \<and> fromSq m = (row, col)"
proof (cases "getSinglePieceCaptures b row col pc")
  case (Inl e)
  with assms show ?thesis by (simp add: capturesOf_def)
next
  case (Inr ms)
  with assms have m: "m \<in> set ms" by (simp add: capturesOf_def)
  from Inr have "captureLoop b row col pc (getDirections pc) [] = Inr ms"
    by (simp add: getSinglePieceCaptures_def)
  from captureLoop_inv [OF this] m show ?thesis by simp
qed

lemma slidesOf_are_slides:
  assumes "m \<in> set (slidesOf b (row, col, pc))"
  shows "capture m = None \<and> pieceId m = pid pc \<and> fromSq m = (row, col)"
proof (cases "getSinglePieceSlides b row col pc")
  case (Inl e)
  with assms show ?thesis by (simp add: slidesOf_def)
next
  case (Inr ms)
  with assms have m: "m \<in> set ms" by (simp add: slidesOf_def)
  from Inr have "slideLoop b row col pc (getDirections pc) [] = Inr ms"
    by (simp add: getSinglePieceSlides_def)
  from slideLoop_inv [OF this] m show ?thesis by simp
qed

lemma allSquares_inside: "(row, col) \<in> set allSquares \<Longrightarrow> isInside row col"
  by (auto simp: allSquares_def isInside_def)

lemma scanLoop_eq:
  "wfBoard b \<Longrightarrow> (\<forall>(row, col) \<in> set sqs. isInside row col) \<Longrightarrow>
   scanLoop b p sqs caps sls =
     Inr (caps @ concat (map (capturesOf b) (piecesOn b p sqs)),
          sls @ concat (map (\<lambda>x. if capturesOf b x = [] then slidesOf b x else [])
                            (piecesOn b p sqs)))"
proof (induction sqs arbitrary: caps sls)
  case Nil
  then show ?case by (simp add: piecesOn_def)
next
  case (Cons sq sqs)
  obtain row col where sq: "sq = (row, col)" by (cases sq)
  have ins: "isInside row col" using Cons.prems(2) by (simp add: sq)
  have rest: "\<forall>(row, col) \<in> set sqs. isInside row col" using Cons.prems(2) by simp
  note IH = Cons.IH [OF Cons.prems(1) rest]
  obtain c where c: "cellAt b row col = Inr c"
    using cellAt_wf_total [OF Cons.prems(1) ins] by blast
  have pieces_cons: "piecesOn b p ((row, col) # sqs) =
      (case c of Some pc \<Rightarrow> if player pc = p then [(row, col, pc)] else [] | None \<Rightarrow> [])
      @ piecesOn b p sqs"
    by (simp add: piecesOn_def c)
  show ?case
  proof (cases c)
    case None
    then show ?thesis using IH by (simp add: sq c pieces_cons)
  next
    case (Some pc)
    show ?thesis
    proof (cases "player pc = p")
      case False
      then show ?thesis using IH by (simp add: sq c pieces_cons Some)
    next
      case True
      obtain cs where cs: "getSinglePieceCaptures b row col pc = Inr cs"
        using getSinglePieceCaptures_total [OF Cons.prems(1)] by blast
      obtain ss where ss: "getSinglePieceSlides b row col pc = Inr ss"
        using getSinglePieceSlides_total [OF Cons.prems(1)] by blast
      show ?thesis
        using IH by (simp add: sq c pieces_cons Some True cs ss capturesOf_def slidesOf_def)
    qed
  qed
qed

lemma getLegalMoves_scan:
  assumes "wfBoard b"
  shows "getLegalMoves b p None =
     Inr (let caps = concat (map (capturesOf b) (piecesOf b p));
              sls = concat (map (\<lambda>x. if capturesOf b x = [] then slidesOf b x else [])
                            (piecesOf b p))
          in if caps \<noteq> [] then caps else sls)"
proof -
  have "\<forall>(row, col) \<in> set allSquares. isInside row col"
    using allSquares_inside by blast
  from scanLoop_eq [OF assms this, of p "[]" "[]"]
  show ?thesis
    by (simp add: getLegalMoves_def truthyId_def piecesOf_def Let_def)
qed

lemma no_caps_slides:
  "\<forall>x \<in> set xs. capturesOf b x = [] \<Longrightarrow>
   concat (map (\<lambda>x. if capturesOf b x = [] then slidesOf b x else []) xs) = concat (map (slidesOf b) xs)"
  by (induction xs) auto

text \<open>
  Claim C1 (mandatory capture). On an 8x8 board and with no forced piece, if some piece of
  the player has a capture candidate then \<open>getLegalMoves\<close> returns exactly the capture
  candidates of all of the player's pieces, in scan order, and every returned move is a
  capture; if no piece of the player has a capture candidate it returns exactly the slide
  candidates of all of the player's pieces.
\<close>

theorem getLegalMoves_mandatory_capture:
  assumes "wfBoard b"
  shows "((\<exists>x \<in> set (piecesOf b p). capturesOf b x \<noteq> []) \<longrightarrow>
            getLegalMoves b p None = Inr (concat (map (capturesOf b) (piecesOf b p))) \<and>
            (\<forall>m \<in> set (concat (map (capturesOf b) (piecesOf b p))). capture m \<noteq> None)) \<and>
         ((\<forall>x \<in> set (piecesOf b p). capturesOf b x = []) \<longrightarrow>
            getLegalMoves b p None = Inr (concat (map (slidesOf b) (piecesOf b p))) \<and>
            (\<forall>m \<in> set (concat (map (slidesOf b) (piecesOf b p))). capture m = None))"
proof (intro conjI impI)
  assume ex: "\<exists>x \<in> set (piecesOf b p). capturesOf b x \<noteq> []"
  then have "concat (map (capturesOf b) (piecesOf b p)) \<noteq> []" by auto
  then show "getLegalMoves b p None = Inr (concat (map (capturesOf b) (piecesOf b p)))"
    by (simp add: getLegalMoves_scan [OF assms] Let_def)
next
  show "\<forall>m \<in> set (concat (map (capturesOf b) (piecesOf b p))). capture m \<noteq> None"
    using capturesOf_are_captures by fastforce
next
  assume all: "\<forall>x \<in> set (piecesOf b p). capturesOf b x = []"
  then have "concat (map (capturesOf b) (piecesOf b p)) = []" by auto
  then show "getLegalMoves b p None = Inr (concat (map (slidesOf b) (piecesOf b p)))"
    by (simp add: getLegalMoves_scan [OF assms] Let_def no_caps_slides [OF all])
next
  show "\<forall>m \<in> set (concat (map (slidesOf b) (piecesOf b p))). capture m = None"
    using slidesOf_are_slides by fastforce
qed

text \<open>
  Claim C10 (forced id 0). A \<open>forcedPieceId\<close> of \<open>0\<close> is treated as absent:
  \<open>getLegalMoves\<close> answers exactly as it does for \<open>null\<close>, on every board and for
  every player. The id \<open>0\<close> can occur: \<open>createInitialBoard(0)\<close> gives it to the first
  piece it places, the dark man on square (0, 1).
\<close>

theorem getLegalMoves_zero_is_unforced:
  "getLegalMoves b p (Some 0) = getLegalMoves b p None \<and>
   cellAt (fst (createInitialBoard 0)) 0 1 = Inr (Some \<lparr>pid = 0, player = Dark, king = False\<rparr>)"
proof
  show "getLegalMoves b p (Some 0) = getLegalMoves b p None"
    by (simp add: getLegalMoves_def truthyId_def)
  show "cellAt (fst (createInitialBoard 0)) 0 1 = Inr (Some \<lparr>pid = 0, player = Dark, king = False\<rparr>)"
    by code_simp
qed

lemma findLoop_total:
  "wfBoard b \<Longrightarrow> (\<forall>(row, col) \<in> set sqs. isInside row col) \<Longrightarrow> \<exists>r. findLoop fid b sqs = Inr r"
proof (induction sqs)
  case Nil
  then show ?case by simp
next
  case (Cons sq sqs)
  obtain row col where sq: "sq = (row, col)" by (cases sq)
  from Cons show ?case
    by (auto simp: sq cellAt_wf split: option.splits)
qed

lemma findLoop_Some:
  "findLoop fid b sqs = Inr (Some (row, col, pc)) \<Longrightarrow>
     (row, col) \<in> set sqs \<and> cellAt b row col = Inr (Some pc) \<and> pid pc = fid"
proof (induction sqs)
  case Nil
  then show ?case by simp
next
  case (Cons sq sqs)
  obtain r c where sq: "sq = (r, c)" by (cases sq)
  from Cons show ?case
    by (auto simp: sq split: option.splits sum.splits if_splits)
qed

lemma findLoop_None:
  "findLoop fid b sqs = Inr None \<Longrightarrow> (row, col) \<in> set sqs \<Longrightarrow>
     cellAt b row col = Inr (Some pc) \<Longrightarrow> pid pc \<noteq> fid"
proof (induction sqs)
  case Nil
  then show ?case by simp
next
  case (Cons sq sqs)
  obtain r c where sq: "sq = (r, c)" by (cases sq)
  from Cons show ?case
    by (auto simp: sq split: option.splits sum.splits if_splits)
qed

text \<open>
  Claim C4 (forced piece), as amended: for a forced id other than \<open>0\<close> and an 8x8 board.
  If a piece with that id stands on the board, \<open>getLegalMoves\<close> returns exactly the
  capture candidates of that piece from its square (each returned move is a capture of
  that piece from that square, whoever the player is); if no piece has that id the result
  is empty.
\<close>

theorem getLegalMoves_forced_nonzero:
  assumes wf: "wfBoard b" and nz: "fid \<noteq> 0"
  shows "if holdsId b fid
         then \<exists>row col pc.
                findPiece fid b = Inr (Some (row, col, pc)) \<and>
                cellAt b row col = Inr (Some pc) \<and> pid pc = fid \<and>
                getLegalMoves b p (Some fid) = Inr (capturesOf b (row, col, pc)) \<and>
                (\<forall>m \<in> set (capturesOf b (row, col, pc)).
                   capture m \<noteq> None \<and> pieceId m = fid \<and> fromSq m = (row, col))
         else getLegalMoves b p (Some fid) = Inr []"
proof -
  have ins: "\<forall>(row, col) \<in> set allSquares. isInside row col"
    using allSquares_inside by blast
  obtain r where r: "findPiece fid b = Inr r"
    using findLoop_total [OF wf ins] unfolding findPiece_def by blast
  show ?thesis
  proof (cases r)
    case None
    have "\<not> holdsId b fid"
      using findLoop_None [of fid b allSquares] r None
      unfolding holdsId_def findPiece_def
      by (fastforce split: sum.splits option.splits)
    moreover have "getLegalMoves b p (Some fid) = Inr []"
      using nz r None by (simp add: getLegalMoves_def truthyId_def)
    ultimately show ?thesis by simp
  next
    case (Some x)
    obtain row col pc where x: "x = (row, col, pc)" by (cases x)
    have f: "findPiece fid b = Inr (Some (row, col, pc))" using r Some x by simp
    from findLoop_Some [of fid b allSquares row col pc] f
    have loc: "(row, col) \<in> set allSquares" "cellAt b row col = Inr (Some pc)" "pid pc = fid"
      unfolding findPiece_def by simp_all
    then have h: "holdsId b fid" unfolding holdsId_def by force
    obtain ms where ms: "getSinglePieceCaptures b row col pc = Inr ms"
      using getSinglePieceCaptures_total [OF wf] by blast
    have g: "getLegalMoves b p (Some fid) = Inr (capturesOf b (row, col, pc))"
      using nz f ms by (simp add: getLegalMoves_def truthyId_def capturesOf_def)
    have "\<forall>m \<in> set (capturesOf b (row, col, pc)).
            capture m \<noteq> None \<and> pieceId m = fid \<and> fromSq m = (row, col)"
      using capturesOf_are_captures [of _ b row col pc] loc(3) by blast
    with h f loc g show ?thesis by auto
  qed
qed

section \<open>Properties of the move applier\<close>

lemma cloneBoard_id: "cloneBoard b = b"
proof -
  have cellc: "(\<lambda>c. case c of None \<Rightarrow> None
                | Some pc \<Rightarrow> Some \<lparr>pid = pid pc, player = player pc, king = king pc\<rparr>)
               = (\<lambda>c :: cell. c)"
  proof (rule ext)
    fix c :: cell
    show "(case c of None \<Rightarrow> None
           | Some pc \<Rightarrow> Some \<lparr>pid = pid pc, player = player pc, king = king pc\<rparr>) = c"
      by (cases c) simp_all
  qed
  show ?thesis
    unfolding cloneBoard_def cellc by simp
qed

text \<open>
  Claim C5 (no-op fallback). When the \<open>from\<close> square of the move is an empty square of
  the board, \<open>applyMove\<close> raises nothing and returns the input board unchanged as a
  value, the same player to move, no forced piece, no captured piece and no promotion.
\<close>

theorem applyMove_empty_from:
  assumes "cellAt b (fst (fromSq m)) (snd (fromSq m)) = Inr None"
  shows "applyMove b m cur =
           Inr \<lparr>board = b, currentPlayer = cur, forcedPieceId = None,
                capturedPieceId = None, promoted = False\<rparr>"
  using assms by (simp add: applyMove_def cloneBoard_id split_beta)

lemma wfBoard_update:
  assumes "wfBoard b"
  shows "wfBoard (b[i := (b ! i)[j := v]])"
proof -
  have "length r = 8" if "r \<in> set (b[i := (b ! i)[j := v]])" for r
  proof -
    from that have "r = (b ! i)[j := v] \<or> r \<in> set b"
      using set_update_subset_insert [of b i "(b ! i)[j := v]"] by auto
    then show ?thesis
    proof
      assume r: "r = (b ! i)[j := v]"
      show ?thesis
      proof (cases "i < length b")
        case True
        then have "b ! i \<in> set b" by simp
        with assms r show ?thesis by (simp add: wfBoard_def)
      next
        case False
        then have "b[i := (b ! i)[j := v]] = b" by (simp add: list_update_beyond)
        with that assms show ?thesis by (simp add: wfBoard_def)
      qed
    next
      assume "r \<in> set b"
      with assms show ?thesis by (simp add: wfBoard_def)
    qed
  qed
  with assms show ?thesis by (simp add: wfBoard_def)
qed

lemma wf_row_length: "wfBoard b \<Longrightarrow> 0 \<le> row \<Longrightarrow> row < 8 \<Longrightarrow> length (b ! nat row) = 8"
  by (simp add: wfBoard_def)

lemma setCell_wf:
  "wfBoard b \<Longrightarrow> isInside row col \<Longrightarrow>
     setCell b row col v = Inr (b[nat row := (b ! nat row)[nat col := v]])"
  by (auto simp: setCell_def Let_def isInside_def wfBoard_def)

lemma cellAt_Some_inside:
  "wfBoard b \<Longrightarrow> cellAt b row col = Inr (Some pc) \<Longrightarrow> isInside row col"
  by (auto simp: cellAt_def Let_def isInside_def wfBoard_def split: if_splits)

lemma captureStep_wf:
  assumes "wfBoard b" "onBoard cap"
  shows "\<exists>b' c. captureStep b cap = Inr (b', c) \<and> wfBoard b'"
proof (cases cap)
  case None
  with assms show ?thesis by (simp add: captureStep_def)
next
  case (Some sq)
  obtain r c where sq: "sq = (r, c)" by (cases sq)
  from assms Some sq have ins: "isInside r c" by (simp add: onBoard_def)
  show ?thesis
    using assms(1) ins wfBoard_update [OF assms(1)]
    by (simp add: captureStep_def Some sq cellAt_wf setCell_wf)
qed

text \<open>
  Claim C2 (turn continuation). For an 8x8 board and a move whose moving piece \<open>mp\<close>
  stands on the \<open>from\<close> square, with \<open>to\<close> and the capture square (if any) on the grid,
  \<open>applyMove\<close> returns a result; the move promotes exactly when \<open>mp\<close> is a man landing
  on the far rank of its colour. If the move is a capture, does not promote, and the moved
  piece has a capture candidate from \<open>to\<close> on the resulting board, the player to move
  stays the same and \<open>forcedPieceId\<close> is the id of the moved piece. In every other case
  (a slide, a promoting capture, a capture without follow-up) the player to move is the
  other colour (dark after light, light after dark) and \<open>forcedPieceId\<close> is none.
\<close>

theorem applyMove_turn:
  assumes wf: "wfBoard b"
    and mp: "cellAt b (fst (fromSq m)) (snd (fromSq m)) = Inr (Some mp)"
    and to: "isInside (fst (toSq m)) (snd (toSq m))"
    and cap: "onBoard (capture m)"
  shows "\<exists>r. applyMove b m cur = Inr r \<and>
           (promoted r \<longleftrightarrow> \<not> king mp \<and> fst (toSq m) = farRank (player mp)) \<and>
           (if capture m \<noteq> None \<and> \<not> promoted r \<and>
               capturesOf (board r) (fst (toSq m), snd (toSq m), mp) \<noteq> []
            then currentPlayer r = cur \<and> forcedPieceId r = Some (pid mp)
            else currentPlayer r = (case cur of Light \<Rightarrow> Dark | Dark \<Rightarrow> Light) \<and>
                 forcedPieceId r = None)"
proof -
  obtain fr fc where fs: "fromSq m = (fr, fc)" by (cases "fromSq m")
  obtain tr tc where ts: "toSq m = (tr, tc)" by (cases "toSq m")
  from mp fs have mp': "cellAt b fr fc = Inr (Some mp)" by simp
  from cellAt_Some_inside [OF wf mp'] have fi: "isInside fr fc" .
  from to ts have ti: "isInside tr tc" by simp
  define b1 where "b1 = b[nat fr := (b ! nat fr)[nat fc := None]]"
  define b2 where "b2 = b1[nat tr := (b1 ! nat tr)[nat tc := Some mp]]"
  have wf1: "wfBoard b1" unfolding b1_def by (rule wfBoard_update [OF wf])
  have wf2: "wfBoard b2" unfolding b2_def by (rule wfBoard_update [OF wf1])
  obtain b3 c where cs: "captureStep b2 (capture m) = Inr (b3, c)" and wf3: "wfBoard b3"
    using captureStep_wf [OF wf2 cap] by blast
  have cr: "crowns mp tr \<longleftrightarrow> \<not> king mp \<and> tr = farRank (player mp)"
    unfolding crowns_def farRank_def by (cases "player mp") auto
  obtain fu where fu: "getSinglePieceCaptures b3 tr tc mp = Inr fu"
    using getSinglePieceCaptures_total [OF wf3] by blast
  have s1: "setCell b fr fc None = Inr b1"
    unfolding b1_def by (rule setCell_wf [OF wf fi])
  have s2: "setCell b1 tr tc (Some mp) = Inr b2"
    unfolding b2_def by (rule setCell_wf [OF wf1 ti])
  have oth: "otherPlayer cur = (case cur of Light \<Rightarrow> Dark | Dark \<Rightarrow> Light)"
    by (cases cur) (simp_all add: otherPlayer_def)
  show ?thesis
  proof (cases "crowns mp tr")
    case True
    have "\<exists>b4. applyMove b m cur =
            Inr \<lparr>board = b4, currentPlayer = otherPlayer cur, forcedPieceId = None,
                 capturedPieceId = c, promoted = True\<rparr>"
      using mp' s1 s2 cs True
      by (simp add: applyMove_def cloneBoard_id fs ts Let_def)
    then obtain b4 where r: "applyMove b m cur =
            Inr \<lparr>board = b4, currentPlayer = otherPlayer cur, forcedPieceId = None,
                 capturedPieceId = c, promoted = True\<rparr>" by blast
    show ?thesis
      unfolding r using True cr ts oth by simp
  next
    case False
    have "applyMove b m cur =
            (if capture m \<noteq> None \<and> fu \<noteq> []
             then Inr \<lparr>board = b3, currentPlayer = cur, forcedPieceId = Some (pid mp),
                       capturedPieceId = c, promoted = False\<rparr>
             else Inr \<lparr>board = b3, currentPlayer = otherPlayer cur, forcedPieceId = None,
                       capturedPieceId = c, promoted = False\<rparr>)"
      using mp' s1 s2 cs False fu
      by (simp add: applyMove_def cloneBoard_id fs ts Let_def)
    then show ?thesis using False cr ts fu oth by (simp add: capturesOf_def)
  qed
qed

text \<open>
  Claim C3 (promotion ends the turn), as amended: the far rank is that of the colour of
  the moving piece. For an 8x8 board and a move whose moving piece \<open>mp\<close> stands on the
  \<open>from\<close> square, is not a king, and lands on the far rank of its own colour (row 0 for
  a light piece, row 7 for a dark piece), with \<open>to\<close> and the capture square on the grid and
  distinct: \<open>applyMove\<close> returns a result with \<open>promoted\<close> true, no forced piece, the
  other colour to move (dark after light, light after dark), and the moved piece, now a
  king, on the \<open>to\<close> square. This holds for slides and captures alike, whatever captures
  the new king would have.
\<close>

theorem applyMove_promotion:
  assumes wf: "wfBoard b"
    and mp: "cellAt b (fst (fromSq m)) (snd (fromSq m)) = Inr (Some mp)"
    and man: "\<not> king mp"
    and far: "fst (toSq m) = farRank (player mp)"
    and to: "isInside (fst (toSq m)) (snd (toSq m))"
    and cap: "onBoard (capture m)"
    and away: "capture m \<noteq> Some (toSq m)"
  shows "\<exists>r. applyMove b m cur = Inr r \<and> promoted r \<and> forcedPieceId r = None \<and>
           currentPlayer r = (case cur of Light \<Rightarrow> Dark | Dark \<Rightarrow> Light) \<and>
           cellAt (board r) (fst (toSq m)) (snd (toSq m)) = Inr (Some (mp\<lparr>king := True\<rparr>))"
proof -
  obtain fr fc where fs: "fromSq m = (fr, fc)" by (cases "fromSq m")
  obtain tr tc where ts: "toSq m = (tr, tc)" by (cases "toSq m")
  from mp fs have mp': "cellAt b fr fc = Inr (Some mp)" by simp
  from cellAt_Some_inside [OF wf mp'] have fi: "isInside fr fc" .
  from to ts have ti: "isInside tr tc" by simp
  define b1 where "b1 = b[nat fr := (b ! nat fr)[nat fc := None]]"
  define b2 where "b2 = b1[nat tr := (b1 ! nat tr)[nat tc := Some mp]]"
  have wf1: "wfBoard b1" unfolding b1_def by (rule wfBoard_update [OF wf])
  have wf2: "wfBoard b2" unfolding b2_def by (rule wfBoard_update [OF wf1])
  obtain b3 c where cs: "captureStep b2 (capture m) = Inr (b3, c)" and wf3: "wfBoard b3"
    using captureStep_wf [OF wf2 cap] by blast
  have crowned: "crowns mp tr"
    using man far ts unfolding crowns_def farRank_def by (cases "player mp") auto
  have s1: "setCell b fr fc None = Inr b1"
    unfolding b1_def by (rule setCell_wf [OF wf fi])
  have s2: "setCell b1 tr tc (Some mp) = Inr b2"
    unfolding b2_def by (rule setCell_wf [OF wf1 ti])
  define b4 where "b4 = b3[nat tr := (b3 ! nat tr)[nat tc := Some (mp\<lparr>king := True\<rparr>)]]"
  have wf4: "wfBoard b4" unfolding b4_def by (rule wfBoard_update [OF wf3])
  have lt: "nat tr < length b3" "nat tc < length (b3 ! nat tr)"
    using wf3 ti wf_row_length [OF wf3, of tr] by (auto simp: isInside_def wfBoard_def)
  have "b4 ! nat tr ! nat tc = Some (mp\<lparr>king := True\<rparr>)"
    unfolding b4_def using lt by simp
  with cellAt_wf [OF wf4 ti]
  have rd: "cellAt b4 tr tc = Inr (Some (mp\<lparr>king := True\<rparr>))" by simp
  have "applyMove b m cur =
          Inr \<lparr>board = b4, currentPlayer = otherPlayer cur, forcedPieceId = None,
               capturedPieceId = c, promoted = True\<rparr>"
    using mp' s1 s2 cs crowned away
    by (simp add: applyMove_def cloneBoard_id fs ts Let_def b4_def)
  moreover have "otherPlayer cur = (case cur of Light \<Rightarrow> Dark | Dark \<Rightarrow> Light)"
    by (cases cur) (simp_all add: otherPlayer_def)
  ultimately show ?thesis using rd ts by simp
qed

section \<open>Properties of the search\<close>

text \<open>
  Claim C7 (terminal node). When the player to move has no legal move, \<open>minimax\<close>
  returns \<open>-1000 - depth\<close> if that player is the maximizing player and \<open>1000 + depth\<close>
  otherwise, for every depth (also at or below the cutoff depth 0), window and random
  source, without consulting the random source.
\<close>

theorem minimax_terminal:
  assumes "getLegalMoves b cur forced = Inr []"
  shows "minimax b cur forced maxP depth alpha beta random n =
           Inr (Fin (if cur = maxP then - 1000 - real_of_int depth
                     else 1000 + real_of_int depth), n)"
  using assms by simp

section \<open>Properties of the selector\<close>

text \<open>
  Claim C8 (easy policy), as amended: for a non-empty list of at most 100 moves, the
  easy policy with the constant random source \<open>0.99\<close> returns the last move of the list.
\<close>

theorem easy_last_upto_100:
  assumes "moves \<noteq> []" "length moves \<le> 100"
  shows "chooseMoveBySkill Easy moves b p (\<lambda>n. 0.99) = Inr (Some (last moves))"
proof -
  let ?n = "length moves"
  have pos: "0 < ?n" using assms(1) by simp
  have "real_of_int (int ?n - 1) \<le> 0.99 * real ?n"
    using assms(2) by simp
  then have "int ?n - 1 \<le> \<lfloor>0.99 * real ?n\<rfloor>"
    by (simp add: le_floor_iff)
  then have idx: "min (int ?n - 1) \<lfloor>0.99 * real ?n\<rfloor> = int ?n - 1" by simp
  have "nat (int ?n - 1) = ?n - 1" by simp
  then have "moves ! nat (int ?n - 1) = last moves"
    using assms(1) by (simp add: last_conv_nth)
  with idx pos assms(1) show ?thesis
    by (simp add: chooseMoveBySkill_def Let_def)
qed

lemma scoreMove_parts:
  assumes wf: "wfBoard b" and ob: "moveOnBoard m"
  shows "scoreMove m b p random n =
           Inr (random n * 0.2 + captureTerm b m + pieceTerm b m p + centerTerm (toSq m), Suc n)"
proof -
  obtain fr fc where fs: "fromSq m = (fr, fc)" by (cases "fromSq m")
  from ob fs have fi: "isInside fr fc" by (simp add: moveOnBoard_def)
  show ?thesis
  proof (cases "capture m")
    case None
    then show ?thesis
      by (cases p; cases "b ! nat fr ! nat fc")
         (simp_all add: scoreMove_def Let_def fs cellAt_wf [OF wf fi] captureTerm_def
            pieceTerm_def centerTerm_def)
  next
    case (Some sq)
    obtain cr cc where sq: "sq = (cr, cc)" by (cases sq)
    from ob Some sq have ci: "isInside cr cc" by (simp add: moveOnBoard_def onBoard_def)
    show ?thesis
      by (cases p; cases "b ! nat fr ! nat fc"; cases "b ! nat cr ! nat cc")
         (simp_all add: scoreMove_def Let_def fs Some sq cellAt_wf [OF wf fi]
            cellAt_wf [OF wf ci] captureTerm_def pieceTerm_def centerTerm_def)
  qed
qed

lemma centerTerm_bounds:
  assumes "isInside r c"
  shows "0 \<le> centerTerm (r, c)" "centerTerm (r, c) \<le> 18 / 25"
    "r = 0 \<or> r = 7 \<Longrightarrow> centerTerm (r, c) \<le> 9 / 25"
proof -
  define d where "d = \<bar>real_of_int r - 7 / 2\<bar> + \<bar>real_of_int c - 7 / 2\<bar>"
  have eq: "centerTerm (r, c) = (7 - d) * (3 / 25)"
    by (simp add: centerTerm_def d_def)
  have r: "0 \<le> real_of_int r" "real_of_int r \<le> 7" and c: "0 \<le> real_of_int c" "real_of_int c \<le> 7"
    using assms by (auto simp: isInside_def)
  have c3: "c \<le> 3 \<or> 4 \<le> c" by arith
  then have c4: "real_of_int c \<le> 3 \<or> 4 \<le> real_of_int c" by linarith
  have d7: "d \<le> 7" unfolding d_def using r c by linarith
  have r3: "r \<le> 3 \<or> 4 \<le> r" by arith
  then have r4: "real_of_int r \<le> 3 \<or> 4 \<le> real_of_int r" by linarith
  have d0: "1 \<le> d" unfolding d_def using r4 c4 by linarith
  show "0 \<le> centerTerm (r, c)" unfolding eq using d7 by simp
  show "centerTerm (r, c) \<le> 18 / 25" unfolding eq using d0 by simp
  show "centerTerm (r, c) \<le> 9 / 25" if "r = 0 \<or> r = 7"
  proof -
    from that have "\<bar>real_of_int r - 7 / 2\<bar> = 7 / 2" by auto
    moreover have "1 / 2 \<le> \<bar>real_of_int c - 7 / 2\<bar>" using c4 by linarith
    ultimately have "4 \<le> d" unfolding d_def by linarith
    then show ?thesis unfolding eq by simp
  qed
qed

lemma captureTerm_bounds:
  "capture m \<noteq> None \<Longrightarrow> 6 \<le> captureTerm b m"
  "capture m = None \<Longrightarrow> captureTerm b m = 0"
  by (auto simp: captureTerm_def split: option.splits)

lemma pieceTerm_lower:
  assumes "jumpRows m"
  shows "- (11 / 10) \<le> pieceTerm b m p"
proof -
  have j: "\<bar>fst (toSq m) - fst (fromSq m)\<bar> \<le> 2" using assms by (simp add: jumpRows_def)
  have "- 2 \<le> fst (fromSq m) - fst (toSq m)" using j by arith
  then have a1: "- 2 \<le> real_of_int (fst (fromSq m) - fst (toSq m))" by linarith
  have "- 2 \<le> fst (toSq m) - fst (fromSq m)" using j by arith
  then have a2: "- 2 \<le> real_of_int (fst (toSq m) - fst (fromSq m))" by linarith
  define adv where "adv = real_of_int (if p = Light then fst (fromSq m) - fst (toSq m)
                            else fst (toSq m) - fst (fromSq m))"
  have "- 2 \<le> adv" unfolding adv_def using a1 a2 by simp
  then have "- (11 / 10) \<le> adv * (11 / 20)" by simp
  moreover have "adv * 0.55 = adv * (11 / 20)" by simp
  ultimately have low: "- (11 / 10) \<le> adv * 0.55" by simp
  show ?thesis
    unfolding pieceTerm_def adv_def [symmetric] using low
    by (simp split: option.splits)
qed

lemma pieceTerm_upper:
  assumes "moveOnBoard m"
  shows "pieceTerm b m p + centerTerm (toSq m) \<le> 109 / 25"
proof -
  obtain fr fc where fs: "fromSq m = (fr, fc)" by (cases "fromSq m")
  obtain tr tc where ts: "toSq m = (tr, tc)" by (cases "toSq m")
  from assms fs ts have ins: "isInside fr fc" "isInside tr tc"
    by (simp_all add: moveOnBoard_def)
  have rows: "0 \<le> fr" "fr \<le> 7" "0 \<le> tr" "tr \<le> 7"
    using ins by (auto simp: isInside_def)
  note ct = centerTerm_bounds [OF ins(2)]
  show ?thesis
  proof (cases "(p = Light \<and> tr = 0) \<or> (p = Dark \<and> tr = 7)")
    case True
    then have "tr = 0 \<or> tr = 7" by auto
    from ct(3) [OF this] have c9: "centerTerm (tr, tc) \<le> 9 / 25" .
    have "pieceTerm b m p \<le> 4"
      using True by (auto simp: pieceTerm_def fs ts split: option.splits)
    with c9 show ?thesis unfolding ts by linarith
  next
    case False
    define adv where "adv = real_of_int (if p = Light then fr - tr else tr - fr)"
    have "(if p = Light then fr - tr else tr - fr) \<le> 6"
      using rows False by (cases p) auto
    then have "adv \<le> 6" unfolding adv_def by linarith
    then have "adv * (11 / 20) \<le> 33 / 10" by simp
    moreover have "adv * 0.55 = adv * (11 / 20)" by simp
    ultimately have up: "adv * 0.55 \<le> 33 / 10" by simp
    have "pieceTerm b m p \<le> 33 / 10"
      unfolding pieceTerm_def fs ts fst_conv snd_conv adv_def [symmetric] using up False
      by (simp split: option.splits)
    with ct(2) show ?thesis unfolding ts by linarith
  qed
qed

lemma scoreMove_capture:
  assumes wf: "wfBoard b" and ob: "moveOnBoard m" and cap: "capture m \<noteq> None"
    and j: "jumpRows m" and r0: "0 \<le> random n"
  shows "\<exists>sc. scoreMove m b p random n = Inr (sc, Suc n) \<and> 49 / 10 \<le> sc"
proof -
  obtain tr tc where ts: "toSq m = (tr, tc)" by (cases "toSq m")
  from ob ts have ti: "isInside tr tc" by (simp add: moveOnBoard_def)
  have "0 \<le> centerTerm (toSq m)" using centerTerm_bounds(1) [OF ti] ts by simp
  moreover have "6 \<le> captureTerm b m" by (rule captureTerm_bounds(1) [OF cap])
  moreover have "- (11 / 10) \<le> pieceTerm b m p" by (rule pieceTerm_lower [OF j])
  moreover have "0 \<le> random n * 0.2" using r0 by simp
  ultimately have "49 / 10 \<le> random n * 0.2 + captureTerm b m + pieceTerm b m p + centerTerm (toSq m)"
    by linarith
  then show ?thesis by (simp add: scoreMove_parts [OF wf ob])
qed

lemma scoreMove_slide:
  assumes wf: "wfBoard b" and ob: "moveOnBoard m" and cap: "capture m = None"
    and r1: "random n < 1"
  shows "\<exists>sc. scoreMove m b p random n = Inr (sc, Suc n) \<and> sc < 49 / 10"
proof -
  have "pieceTerm b m p + centerTerm (toSq m) \<le> 109 / 25" by (rule pieceTerm_upper [OF ob])
  moreover have "captureTerm b m = 0" by (rule captureTerm_bounds(2) [OF cap])
  moreover have "random n * 0.2 < 1 / 5" using r1 by simp
  ultimately have "random n * 0.2 + captureTerm b m + pieceTerm b m p + centerTerm (toSq m) < 49 / 10"
    by linarith
  then show ?thesis by (simp add: scoreMove_parts [OF wf ob])
qed

lemma bestLoop_keeps_capture:
  assumes wf: "wfBoard b" and un: "unitRandom random"
  shows "(\<forall>m \<in> set ms. moveOnBoard m \<and> (capture m \<noteq> None \<longrightarrow> jumpRows m)) \<Longrightarrow>
         capture best \<noteq> None \<Longrightarrow> 49 / 10 \<le> s \<Longrightarrow>
         \<exists>m. bestLoop ms b p random n best (Fin s) = Inr m \<and> capture m \<noteq> None \<and>
             (m = best \<or> m \<in> set ms)"
proof (induction ms arbitrary: n best s)
  case Nil
  then show ?case by simp
next
  case (Cons x xs)
  from Cons.prems(1) have x: "moveOnBoard x" "capture x \<noteq> None \<longrightarrow> jumpRows x"
    and rest: "\<forall>m \<in> set xs. moveOnBoard m \<and> (capture m \<noteq> None \<longrightarrow> jumpRows m)"
    by simp_all
  from un have r: "0 \<le> random n" "random n < 1" by (simp_all add: unitRandom_def)
  show ?case
  proof (cases "capture x = None")
    case True
    from scoreMove_slide [of b x random n p, OF wf x(1) True r(2)]
    obtain sc where sc: "scoreMove x b p random n = Inr (sc, Suc n)" "sc < 49 / 10" by blast
    with Cons.prems(3) have "\<not> s < sc" by linarith
    with sc Cons.IH [OF rest Cons.prems(2) Cons.prems(3), of "Suc n"] show ?thesis
      by auto
  next
    case False
    from scoreMove_capture [of b x random n p, OF wf x(1) False _ r(1)] x(2) False
    obtain sc where sc: "scoreMove x b p random n = Inr (sc, Suc n)" "49 / 10 \<le> sc" by blast
    show ?thesis
    proof (cases "s < sc")
      case True
      with sc Cons.IH [OF rest False sc(2), of "Suc n"] show ?thesis by auto
    next
      case no: False
      with sc Cons.IH [OF rest Cons.prems(2) Cons.prems(3), of "Suc n"] show ?thesis by auto
    qed
  qed
qed

lemma bestLoop_finds_capture:
  assumes wf: "wfBoard b" and un: "unitRandom random"
  shows "(\<forall>m \<in> set ms. moveOnBoard m \<and> (capture m \<noteq> None \<longrightarrow> jumpRows m)) \<Longrightarrow>
         (\<exists>m \<in> set ms. capture m \<noteq> None) \<Longrightarrow>
         bs = NegInf \<or> (\<exists>s. bs = Fin s \<and> s < 49 / 10) \<Longrightarrow>
         \<exists>m. bestLoop ms b p random n best bs = Inr m \<and> capture m \<noteq> None \<and> m \<in> set ms"
proof (induction ms arbitrary: n best bs)
  case Nil
  then show ?case by simp
next
  case (Cons x xs)
  from Cons.prems(1) have x: "moveOnBoard x" "capture x \<noteq> None \<longrightarrow> jumpRows x"
    and rest: "\<forall>m \<in> set xs. moveOnBoard m \<and> (capture m \<noteq> None \<longrightarrow> jumpRows m)"
    by simp_all
  from un have r: "0 \<le> random n" "random n < 1" by (simp_all add: unitRandom_def)
  show ?case
  proof (cases "capture x = None")
    case True
    from scoreMove_slide [of b x random n p, OF wf x(1) True r(2)]
    obtain sc where sc: "scoreMove x b p random n = Inr (sc, Suc n)" "sc < 49 / 10" by blast
    from True Cons.prems(2) have ex: "\<exists>m \<in> set xs. capture m \<noteq> None" by auto
    have "\<exists>m. bestLoop xs b p random (Suc n) x (Fin sc) = Inr m \<and> capture m \<noteq> None \<and> m \<in> set xs"
      using Cons.IH [OF rest ex, of "Fin sc" "Suc n" x] sc(2) by simp
    moreover have "\<exists>m. bestLoop xs b p random (Suc n) best bs = Inr m \<and> capture m \<noteq> None \<and> m \<in> set xs"
      using Cons.IH [OF rest ex Cons.prems(3)] by simp
    ultimately show ?thesis using sc(1) by auto
  next
    case False
    from scoreMove_capture [of b x random n p, OF wf x(1) False _ r(1)] x(2) False
    obtain sc where sc: "scoreMove x b p random n = Inr (sc, Suc n)" "49 / 10 \<le> sc" by blast
    have less: "numLess bs (Fin sc)"
      using Cons.prems(3) sc(2) by auto
    from bestLoop_keeps_capture [OF wf un rest False sc(2), of p "Suc n"]
    show ?thesis using sc(1) less by auto
  qed
qed

text \<open>
  Claim C9 (greedy policy), as amended: on an 8x8 board, with a random source whose values
  lie in \<open>[0, 1)\<close>, for a list of moves on on-board squares in which every capture move
  changes the row by at most two and which contains at least one capture move, the medium
  policy returns a capture move of the list.
\<close>

theorem medium_prefers_jump_captures:
  assumes wf: "wfBoard b" and un: "unitRandom random"
    and ob: "\<forall>m \<in> set moves. moveOnBoard m"
    and jm: "\<forall>m \<in> set moves. capture m \<noteq> None \<longrightarrow> jumpRows m"
    and ex: "\<exists>m \<in> set moves. capture m \<noteq> None"
  shows "\<exists>m. chooseMoveBySkill Medium moves b p random = Inr (Some m) \<and>
             m \<in> set moves \<and> capture m \<noteq> None"
proof -
  from ex have ne: "moves \<noteq> []" by auto
  from ob jm have all: "\<forall>m \<in> set moves. moveOnBoard m \<and> (capture m \<noteq> None \<longrightarrow> jumpRows m)"
    by simp
  from bestLoop_finds_capture [OF wf un all ex, of NegInf p 0 "hd moves"]
  obtain m where "bestLoop moves b p random 0 (hd moves) NegInf = Inr m"
    "capture m \<noteq> None" "m \<in> set moves" by auto
  with ne show ?thesis
    by (simp add: chooseMoveBySkill_def chooseBestMove_def)
qed

section \<open>Properties of the move applier on the store\<close>

lemma unchangedBelow_refl: "unchangedBelow L s s"
  by (simp add: unchangedBelow_def)

lemma unchangedBelow_trans:
  "unchangedBelow L s s' \<Longrightarrow> unchangedBelow L s' s'' \<Longrightarrow> unchangedBelow L s s''"
  by (simp add: unchangedBelow_def)

lemma cloneCells_frame:
  "cloneCells s cs = (s', cs') \<Longrightarrow> L \<le> lim s \<Longrightarrow>
     lim s \<le> lim s' \<and> rowArrays s' = rowArrays s \<and> boardArrays s' = boardArrays s \<and>
     (\<forall>a. a < lim s \<longrightarrow> pieces s' a = pieces s a) \<and>
     (\<forall>a. Some a \<in> set cs' \<longrightarrow> L \<le> a)"
proof (induction s cs arbitrary: s' cs' rule: cloneCells.induct)
  case (1 s)
  then show ?case by simp
next
  case (2 s cs)
  then show ?case by (auto split: prod.splits)
next
  case (3 s a cs)
  obtain s1 a' where al: "allocPiece s \<lparr>pid = pid (pieces s a), player = player (pieces s a),
                                    king = king (pieces s a)\<rparr> = (s1, a')"
    by (cases "allocPiece s \<lparr>pid = pid (pieces s a), player = player (pieces s a),
                                    king = king (pieces s a)\<rparr>")
  obtain s2 cs2 where cl: "cloneCells s1 cs = (s2, cs2)" by (cases "cloneCells s1 cs")
  from al have s1: "lim s1 = Suc (lim s)" "a' = lim s" "rowArrays s1 = rowArrays s"
    "boardArrays s1 = boardArrays s" "\<forall>x. x < lim s \<longrightarrow> pieces s1 x = pieces s x"
    by (auto simp: allocPiece_def)
  from "3.prems"(2) s1 have L1: "L \<le> lim s1" by simp
  from "3.IH" [OF al [symmetric] refl cl L1]
  have ih: "lim s1 \<le> lim s2" "rowArrays s2 = rowArrays s1" "boardArrays s2 = boardArrays s1"
    "\<forall>a. a < lim s1 \<longrightarrow> pieces s2 a = pieces s1 a" "\<forall>a. Some a \<in> set cs2 \<longrightarrow> L \<le> a"
    by simp_all
  from "3.prems"(1) al cl have res: "s' = s2" "cs' = Some a' # cs2" by simp_all
  show ?case
    using ih s1 "3.prems"(2) unfolding res by auto
qed

lemma cloneRows_frame:
  "cloneRows s rs = (s', rs') \<Longrightarrow> L \<le> lim s \<Longrightarrow>
     lim s \<le> lim s' \<and> boardArrays s' = boardArrays s \<and>
     (\<forall>a. a < lim s \<longrightarrow> pieces s' a = pieces s a \<and> rowArrays s' a = rowArrays s a) \<and>
     (\<forall>r \<in> set rs'. L \<le> r \<and> (\<forall>a. Some a \<in> set (rowArrays s' r) \<longrightarrow> L \<le> a))"
proof (induction rs arbitrary: s s' rs')
  case Nil
  then show ?case by simp
next
  case (Cons r rs)
  obtain s1 cells' where cc: "cloneCells s (rowArrays s r) = (s1, cells')"
    by (cases "cloneCells s (rowArrays s r)")
  obtain s2 r' where al: "allocRow s1 cells' = (s2, r')" by (cases "allocRow s1 cells'")
  obtain s3 rs3 where cr: "cloneRows s2 rs = (s3, rs3)" by (cases "cloneRows s2 rs")
  from cloneCells_frame [OF cc Cons.prems(2)]
  have c1: "lim s \<le> lim s1" "rowArrays s1 = rowArrays s" "boardArrays s1 = boardArrays s"
    "\<forall>a. a < lim s \<longrightarrow> pieces s1 a = pieces s a" "\<forall>a. Some a \<in> set cells' \<longrightarrow> L \<le> a"
    by simp_all
  from al have a2: "lim s2 = Suc (lim s1)" "r' = lim s1" "pieces s2 = pieces s1"
    "boardArrays s2 = boardArrays s1" "rowArrays s2 r' = cells'"
    "\<forall>x. x < lim s1 \<longrightarrow> rowArrays s2 x = rowArrays s1 x"
    by (auto simp: allocRow_def)
  have L2: "L \<le> lim s2" using Cons.prems(2) c1(1) a2(1) by simp
  from Cons.IH [OF cr L2]
  have ih: "lim s2 \<le> lim s3" "boardArrays s3 = boardArrays s2"
    "\<forall>a. a < lim s2 \<longrightarrow> pieces s3 a = pieces s2 a \<and> rowArrays s3 a = rowArrays s2 a"
    "\<forall>r \<in> set rs3. L \<le> r \<and> (\<forall>a. Some a \<in> set (rowArrays s3 r) \<longrightarrow> L \<le> a)"
    by simp_all
  from Cons.prems(1) cc al cr have res: "s' = s3" "rs' = r' # rs3" by simp_all
  have r'3: "rowArrays s3 r' = cells'" using ih(3) a2 by simp
  have "L \<le> r'" using a2(2) Cons.prems(2) c1(1) by simp
  moreover have "\<forall>a. Some a \<in> set (rowArrays s3 r') \<longrightarrow> L \<le> a" using r'3 c1(5) by simp
  moreover have "\<forall>a. a < lim s \<longrightarrow> pieces s3 a = pieces s a \<and> rowArrays s3 a = rowArrays s a"
    using ih(3) a2 c1 by auto
  moreover have "lim s \<le> lim s3" using c1(1) a2(1) ih(1) by simp
  moreover have "boardArrays s3 = boardArrays s" using ih(2) a2(4) c1(3) by simp
  ultimately show ?case unfolding res using ih(4) by simp
qed

lemma cloneBoardS_frame:
  assumes "cloneBoardS s b = (s', nb)"
  shows "lim s \<le> lim s'" "unchangedBelow (lim s) s s'" "freshBoard (lim s) s' nb"
proof -
  obtain s1 rows' where cr: "cloneRows s (boardArrays s b) = (s1, rows')"
    by (cases "cloneRows s (boardArrays s b)")
  from cloneRows_frame [OF cr order_refl]
  have c: "lim s \<le> lim s1" "boardArrays s1 = boardArrays s"
    "\<forall>a. a < lim s \<longrightarrow> pieces s1 a = pieces s a \<and> rowArrays s1 a = rowArrays s a"
    "\<forall>r \<in> set rows'. lim s \<le> r \<and> (\<forall>a. Some a \<in> set (rowArrays s1 r) \<longrightarrow> lim s \<le> a)"
    by simp_all
  from assms cr have al: "allocBoard s1 rows' = (s', nb)" by (simp add: cloneBoardS_def)
  then have a: "lim s' = Suc (lim s1)" "nb = lim s1" "pieces s' = pieces s1"
    "rowArrays s' = rowArrays s1" "boardArrays s' nb = rows'"
    "\<forall>x. x < lim s1 \<longrightarrow> boardArrays s' x = boardArrays s1 x"
    by (auto simp: allocBoard_def)
  show "lim s \<le> lim s'" using c(1) a(1) by simp
  show "unchangedBelow (lim s) s s'"
    unfolding unchangedBelow_def using c a by auto
  show "freshBoard (lim s) s' nb"
    unfolding freshBoard_def using c a by auto
qed

lemma cellAtS_fresh:
  assumes "cellAtS s b row col = Inr (Some a)" "freshBoard L s b"
  shows "L \<le> a"
proof -
  let ?rows = "boardArrays s b"
  let ?cells = "rowArrays s (?rows ! nat row)"
  from assms(1) have rg: "nat row < length ?rows" "nat col < length ?cells"
    and v: "?cells ! nat col = Some a"
    by (auto simp: cellAtS_def Let_def split: if_splits)
  from rg(1) have "?rows ! nat row \<in> set ?rows" by simp
  moreover from rg(2) v have "Some a \<in> set ?cells" by (metis nth_mem)
  ultimately show ?thesis using assms(2) by (auto simp: freshBoard_def)
qed

lemma setCellS_frame:
  assumes "setCellS s b row col v = Inr s'" "freshBoard L s b"
    and "\<forall>a. v = Some a \<longrightarrow> L \<le> a"
  shows "unchangedBelow L s s'" "freshBoard L s' b" "lim s' = lim s"
proof -
  let ?rows = "boardArrays s b"
  let ?r = "?rows ! nat row"
  from assms(1) have rg: "0 \<le> row" "row < int (length ?rows)"
    and s': "s' = s\<lparr>rowArrays := (rowArrays s)(?r := (rowArrays s ?r)[nat col := v])\<rparr>"
    by (auto simp: setCellS_def Let_def split: if_splits)
  from rg have mem: "?r \<in> set ?rows" by simp
  with assms(2) have rL: "L \<le> ?r" by (simp add: freshBoard_def)
  show "unchangedBelow L s s'"
    unfolding unchangedBelow_def s' using rL by auto
  show "lim s' = lim s" unfolding s' by simp
  have cells: "\<forall>a. Some a \<in> set ((rowArrays s ?r)[nat col := v]) \<longrightarrow> L \<le> a"
  proof (intro allI impI)
    fix a assume "Some a \<in> set ((rowArrays s ?r)[nat col := v])"
    then have "Some a = v \<or> Some a \<in> set (rowArrays s ?r)"
      using set_update_subset_insert [of "rowArrays s ?r" "nat col" v] by auto
    then show "L \<le> a"
      using assms(3) assms(2) mem by (auto simp: freshBoard_def)
  qed
  show "freshBoard L s' b"
    unfolding freshBoard_def s' using assms(2) cells
    by (auto simp: freshBoard_def)
qed

lemma captureStepS_frame:
  assumes "captureStepS s b cap = (s', res)" "freshBoard L s b"
  shows "unchangedBelow L s s'" "freshBoard L s' b" "lim s' = lim s"
proof -
  have "unchangedBelow L s s' \<and> freshBoard L s' b \<and> lim s' = lim s"
  proof (cases cap)
    case None
    with assms show ?thesis by (simp add: captureStepS_def unchangedBelow_refl)
  next
    case (Some sq)
    obtain r c where sq: "sq = (r, c)" by (cases sq)
    show ?thesis
    proof (cases "cellAtS s b r c")
      case (Inl e)
      with assms Some sq show ?thesis by (simp add: captureStepS_def unchangedBelow_refl)
    next
      case (Inr captured)
      show ?thesis
      proof (cases "setCellS s b r c None")
        case (Inl e)
        with assms Some sq Inr show ?thesis by (simp add: captureStepS_def unchangedBelow_refl)
      next
        case w: (Inr s1)
        with assms Some sq Inr have "s' = s1" by (simp add: captureStepS_def)
        with setCellS_frame [OF w assms(2)] show ?thesis by simp
      qed
    qed
  qed
  then show "unchangedBelow L s s'" "freshBoard L s' b" "lim s' = lim s" by simp_all
qed

lemma crown_frame:
  assumes "L \<le> a"
  shows "unchangedBelow L s (s\<lparr>pieces := (pieces s)(a := pc)\<rparr>)"
    "freshBoard L s b \<Longrightarrow> freshBoard L (s\<lparr>pieces := (pieces s)(a := pc)\<rparr>) b"
  using assms by (auto simp: unchangedBelow_def freshBoard_def)

lemma freshBoard_addrs: "freshBoard L s b \<Longrightarrow> a \<in> set (boardAddrs s b) \<Longrightarrow> L \<le> a"
  by (auto simp: freshBoard_def boardAddrs_def split: option.splits)

lemma applyMoveS_inv:
  assumes "applyMoveS s b m cur = (s', res)"
  shows "unchangedBelow (lim s) s s' \<and> lim s \<le> lim s' \<and>
         (\<forall>r. res = Inr r \<longrightarrow> freshBoard (lim s) s' (board r))"
proof -
  let ?L = "lim s"
  obtain s0 nb where cl: "cloneBoardS s b = (s0, nb)" by (cases "cloneBoardS s b")
  obtain fr fc where fs: "fromSq m = (fr, fc)" by (cases "fromSq m")
  obtain tr tc where ts: "toSq m = (tr, tc)" by (cases "toSq m")
  note c0 = cloneBoardS_frame [OF cl]
  show ?thesis
  proof (cases "cellAtS s0 nb fr fc")
    case (Inl e)
    with assms cl fs ts have "s' = s0" "res = Inl e" by (simp_all add: applyMoveS_def)
    with c0 show ?thesis by simp
  next
    case (Inr cell)
    show ?thesis
    proof (cases cell)
      case None
      with assms cl fs ts Inr have "s' = s0" "\<forall>r. res = Inr r \<longrightarrow> board r = nb"
        by (auto simp: applyMoveS_def)
      with c0 show ?thesis by auto
    next
      case (Some mp)
      have mpL: "?L \<le> mp" using cellAtS_fresh [OF _ c0(3)] Inr Some by simp
      show ?thesis
      proof (cases "setCellS s0 nb fr fc None")
        case (Inl e)
        with assms cl fs ts Inr Some have "s' = s0" "res = Inl e"
          by (simp_all add: applyMoveS_def)
        with c0 show ?thesis by simp
      next
        case w1: (Inr s1)
        have f1: "unchangedBelow ?L s0 s1" "freshBoard ?L s1 nb" "lim s1 = lim s0"
          using setCellS_frame [OF w1 c0(3)] by simp_all
        show ?thesis
        proof (cases "setCellS s1 nb tr tc (Some mp)")
          case (Inl e)
          with assms cl fs ts Inr Some w1 have "s' = s1" "res = Inl e"
            by (simp_all add: applyMoveS_def)
          with c0 f1 show ?thesis by (auto intro: unchangedBelow_trans)
        next
          case w2: (Inr s2)
          have f2: "unchangedBelow ?L s1 s2" "freshBoard ?L s2 nb" "lim s2 = lim s1"
            using setCellS_frame [OF w2 f1(2)] mpL by simp_all
          obtain s3 cres where cs: "captureStepS s2 nb (capture m) = (s3, cres)"
            by (cases "captureStepS s2 nb (capture m)")
          note f3 = captureStepS_frame [OF cs f2(2)]
          have u3: "unchangedBelow ?L s s3"
            using c0(2) f1(1) f2(1) f3(1) by (blast intro: unchangedBelow_trans)
          have l3: "?L \<le> lim s3" using c0(1) f1(3) f2(3) f3(3) by simp
          show ?thesis
          proof (cases cres)
            case (Inl e)
            with assms cl fs ts Inr Some w1 w2 cs have "s' = s3" "res = Inl e"
              by (simp_all add: applyMoveS_def)
            with u3 l3 show ?thesis by simp
          next
            case cap: (Inr captured)
            define s4 where "s4 = (if crowns (pieces s3 mp) tr
                            then s3\<lparr>pieces := (pieces s3)(mp := (pieces s3 mp)\<lparr>king := True\<rparr>)\<rparr>
                            else s3)"
            have f4: "unchangedBelow ?L s3 s4" "freshBoard ?L s4 nb" "lim s4 = lim s3"
              unfolding s4_def using crown_frame [OF mpL] f3(2)
              by (auto simp: unchangedBelow_refl)
            have u4: "unchangedBelow ?L s s4"
              using u3 f4(1) by (blast intro: unchangedBelow_trans)
            have "s' = s4 \<and> (\<forall>r. res = Inr r \<longrightarrow> board r = nb)"
              using assms cl fs ts Inr Some w1 w2 cs cap
              by (auto simp: applyMoveS_def Let_def s4_def split: if_splits sum.splits)
            with u4 f4 l3 show ?thesis by auto
          qed
        qed
      qed
    qed
  qed
qed

lemma set_boardAddrs:
  "set (boardAddrs s b) =
     insert b (set (boardArrays s b) \<union>
               {a. \<exists>r \<in> set (boardArrays s b). Some a \<in> set (rowArrays s r)})"
proof -
  have "set (case c of None \<Rightarrow> [] | Some a \<Rightarrow> [a]) = {a. Some a = c}" for c :: "addr option"
    by (cases c) auto
  then show ?thesis
    by (auto simp: boardAddrs_def)
qed

lemma unchanged_snapshot:
  assumes "unchangedBelow L s s'" "allocated s b" "lim s \<le> L"
  shows "snapshot s' b = snapshot s b" "boardAddrs s' b = boardAddrs s b"
proof -
  from assms(2,3) have "\<forall>a \<in> set (boardAddrs s b). a < L"
    by (auto simp: allocated_def list_all_iff)
  then have bL: "b < L" and rL: "\<forall>r \<in> set (boardArrays s b). r < L"
    and aL: "\<forall>r \<in> set (boardArrays s b). \<forall>a. Some a \<in> set (rowArrays s r) \<longrightarrow> a < L"
    unfolding set_boardAddrs by blast+
  from assms(1) bL have rows: "boardArrays s' b = boardArrays s b"
    by (simp add: unchangedBelow_def)
  from assms(1) rL have cells: "\<forall>r \<in> set (boardArrays s b). rowArrays s' r = rowArrays s r"
    by (simp add: unchangedBelow_def)
  have pcs: "map (map_option (pieces s')) (rowArrays s r) = map (map_option (pieces s)) (rowArrays s r)"
    if "r \<in> set (boardArrays s b)" for r
  proof (rule map_cong [OF refl])
    fix c assume c: "c \<in> set (rowArrays s r)"
    show "map_option (pieces s') c = map_option (pieces s) c"
    proof (cases c)
      case None
      then show ?thesis by simp
    next
      case (Some a)
      with c aL that have "a < L" by blast
      with assms(1) Some show ?thesis by (simp add: unchangedBelow_def)
    qed
  qed
  show "snapshot s' b = snapshot s b"
    unfolding snapshot_def rows using cells pcs by (auto intro!: map_cong)
  show "boardAddrs s' b = boardAddrs s b"
    unfolding boardAddrs_def rows using cells by (auto intro!: arg_cong [where f = concat] map_cong)
qed

text \<open>
  Claim C6 (no mutation of the input, no sharing). Take any store, a board all of whose
  objects exist in it, any move and player, and run \<open>applyMove\<close>, whether it returns or
  raises. Afterwards the input board has the value it had before, consists of the same
  objects, and every object that existed before the call (every board array, row array and
  piece, with its \<open>king\<close> flag) is unchanged. When a result is returned, every object of the
  returned board (its array, its rows, its pieces) was created by the call and is none of
  the objects of the input board.
\<close>

theorem applyMoveS_frame:
  assumes run: "applyMoveS s b m cur = (s', res)" and al: "allocated s b"
  shows "snapshot s' b = snapshot s b \<and> boardAddrs s' b = boardAddrs s b \<and>
         (\<forall>a. a < lim s \<longrightarrow> pieces s' a = pieces s a \<and> rowArrays s' a = rowArrays s a \<and>
                             boardArrays s' a = boardArrays s a) \<and>
         (\<forall>r. res = Inr r \<longrightarrow>
            list_all (\<lambda>a. lim s \<le> a \<and> a \<notin> set (boardAddrs s b)) (boardAddrs s' (board r)))"
proof -
  from applyMoveS_inv [OF run]
  have u: "unchangedBelow (lim s) s s'"
    and f: "\<forall>r. res = Inr r \<longrightarrow> freshBoard (lim s) s' (board r)" by simp_all
  have old: "\<forall>a \<in> set (boardAddrs s b). a < lim s"
    using al by (simp add: allocated_def list_all_iff)
  have "list_all (\<lambda>a. lim s \<le> a \<and> a \<notin> set (boardAddrs s b)) (boardAddrs s' (board r))"
    if "res = Inr r" for r
  proof -
    from f that have fr: "freshBoard (lim s) s' (board r)" by simp
    show ?thesis
      unfolding list_all_iff
    proof
      fix a assume "a \<in> set (boardAddrs s' (board r))"
      from freshBoard_addrs [OF fr this] have "lim s \<le> a" .
      with old show "lim s \<le> a \<and> a \<notin> set (boardAddrs s b)" by auto
    qed
  qed
  with unchanged_snapshot [OF u al order_refl] u show ?thesis
    by (simp add: unchangedBelow_def)
qed

subsection \<open>The value-level applier is what the store-level applier computes\<close>

lemma refsOf_simps:
  "refsOf [] = []" "refsOf (None # cs) = refsOf cs" "refsOf (Some a # cs) = a # refsOf cs"
  "refsOf (xs @ ys) = refsOf xs @ refsOf ys"
  by (simp_all add: refsOf_def)

lemma set_refsOf: "set (refsOf cs) = {a. Some a \<in> set cs}"
proof (induction cs)
  case Nil
  then show ?case by (simp add: refsOf_simps)
next
  case (Cons c cs)
  then show ?case by (cases c) (auto simp: refsOf_simps)
qed

lemma boardAddrs_cellRefs: "boardAddrs s b = b # boardArrays s b @ cellRefs s b"
  by (simp add: boardAddrs_def cellRefs_def refsOf_def)

lemma cellAtS_snapshot:
  "cellAt (snapshot s b) row col = map_sum id (map_option (pieces s)) (cellAtS s b row col)"
proof -
  define rowin where "rowin \<longleftrightarrow> 0 \<le> row \<and> row < int (length (boardArrays s b))"
  define colin where
    "colin \<longleftrightarrow> 0 \<le> col \<and> col < int (length (rowArrays s (boardArrays s b ! nat row)))"
  have l: "length (snapshot s b) = length (boardArrays s b)" by (simp add: snapshot_def)
  have lhs: "cellAt (snapshot s b) row col =
      (if rowin then Inr (if 0 \<le> col \<and> col < int (length (snapshot s b ! nat row))
                          then snapshot s b ! nat row ! nat col else None)
       else Inl TypeError)"
    unfolding cellAt_def Let_def l rowin_def ..
  have rhs: "cellAtS s b row col =
      (if rowin then Inr (if colin then rowArrays s (boardArrays s b ! nat row) ! nat col else None)
       else Inl TypeError)"
    unfolding cellAtS_def Let_def rowin_def colin_def ..
  show ?thesis
  proof (cases rowin)
    case False
    then show ?thesis unfolding lhs rhs by simp
  next
    case True
    then have i: "nat row < length (boardArrays s b)" unfolding rowin_def by linarith
    then have r: "snapshot s b ! nat row =
                    map (map_option (pieces s)) (rowArrays s (boardArrays s b ! nat row))"
      by (simp add: snapshot_def)
    have cl: "(0 \<le> col \<and> col < int (length (snapshot s b ! nat row))) = colin"
      unfolding r colin_def by simp
    show ?thesis
    proof (cases colin)
      case False
      with True show ?thesis unfolding lhs rhs cl by simp
    next
      case c: True
      then have j: "nat col < length (rowArrays s (boardArrays s b ! nat row))"
        unfolding colin_def by linarith
      have "snapshot s b ! nat row ! nat col =
              map_option (pieces s) (rowArrays s (boardArrays s b ! nat row) ! nat col)"
        unfolding r using j by simp
      with True c show ?thesis unfolding lhs rhs cl by simp
    qed
  qed
qed

lemma setCellS_snapshot:
  assumes "distinct (boardArrays s b)"
  shows "setCell (snapshot s b) row col (map_option (pieces s) v) =
           map_sum id (\<lambda>s'. snapshot s' b) (setCellS s b row col v)"
proof -
  let ?rows = "boardArrays s b"
  let ?i = "nat row"
  let ?r = "?rows ! ?i"
  let ?cells = "rowArrays s ?r"
  let ?s' = "s\<lparr>rowArrays := (rowArrays s)(?r := ?cells[nat col := v])\<rparr>"
  let ?b' = "(snapshot s b)[?i := (snapshot s b ! ?i)[nat col := map_option (pieces s) v]]"
  define rowin where "rowin \<longleftrightarrow> 0 \<le> row \<and> row < int (length ?rows)"
  define colin where "colin \<longleftrightarrow> 0 \<le> col \<and> col < int (length ?cells)"
  have l: "length (snapshot s b) = length ?rows" by (simp add: snapshot_def)
  have lhs: "setCell (snapshot s b) row col (map_option (pieces s) v) =
      (if rowin then (if 0 \<le> col \<and> col < int (length (snapshot s b ! ?i))
                      then Inr ?b' else Inl OffGridWrite)
       else Inl TypeError)"
    unfolding setCell_def Let_def l rowin_def ..
  have rhs: "setCellS s b row col v =
      (if rowin then (if colin then Inr ?s' else Inl OffGridWrite) else Inl TypeError)"
    unfolding setCellS_def Let_def rowin_def colin_def ..
  show ?thesis
  proof (cases rowin)
    case False
    then show ?thesis unfolding lhs rhs by simp
  next
    case True
    then have i: "?i < length ?rows" unfolding rowin_def by linarith
    then have r: "snapshot s b ! ?i = map (map_option (pieces s)) ?cells"
      by (simp add: snapshot_def)
    have cl: "(0 \<le> col \<and> col < int (length (snapshot s b ! ?i))) = colin"
      unfolding r colin_def by simp
    show ?thesis
    proof (cases colin)
      case False
      with True show ?thesis unfolding lhs rhs cl by simp
    next
      case c: True
      have "snapshot ?s' b = ?b'"
      proof (rule nth_equalityI)
        show "length (snapshot ?s' b) = length ?b'"
          by (simp add: snapshot_def)
      next
        fix k assume "k < length (snapshot ?s' b)"
        then have k: "k < length ?rows" by (simp add: snapshot_def)
        show "snapshot ?s' b ! k = ?b' ! k"
        proof (cases "k = ?i")
          case True
          with i show ?thesis by (simp add: snapshot_def map_update)
        next
          case False
          with assms k i have "?rows ! k \<noteq> ?r" by (simp add: nth_eq_iff_index_eq)
          with k i False show ?thesis by (simp add: snapshot_def)
        qed
      qed
      with True c show ?thesis unfolding lhs rhs cl by simp
    qed
  qed
qed

lemma snapshot_pieces_irrelevant:
  assumes "a \<notin> set (cellRefs s b)"
  shows "snapshot (s\<lparr>pieces := (pieces s)(a := x)\<rparr>) b = snapshot s b"
proof -
  have "map_option ((pieces s)(a := x)) c = map_option (pieces s) c"
    if "r \<in> set (boardArrays s b)" "c \<in> set (rowArrays s r)" for r c
  proof (cases c)
    case None
    then show ?thesis by simp
  next
    case (Some a')
    with that have "a' \<in> set (cellRefs s b)"
      by (auto simp: cellRefs_def set_refsOf)
    with assms Some show ?thesis by auto
  qed
  then show ?thesis
    by (auto simp: snapshot_def intro!: map_cong)
qed

lemma cellRefs_split:
  assumes d: "distinct (boardArrays s b)"
    and i: "i < length (boardArrays s b)"
    and j: "j < length (rowArrays s (boardArrays s b ! i))"
  shows "\<exists>A B. \<forall>v. cellRefs (s\<lparr>rowArrays := (rowArrays s)
                        (boardArrays s b ! i := (rowArrays s (boardArrays s b ! i))[j := v])\<rparr>) b
                    = A @ refsOf [v] @ B"
proof -
  let ?rows = "boardArrays s b"
  let ?r = "?rows ! i"
  let ?cells = "rowArrays s ?r"
  let ?f = "\<lambda>r. refsOf (rowArrays s r)"
  let ?A = "concat (map ?f (take i ?rows)) @ refsOf (take j ?cells)"
  let ?B = "refsOf (drop (Suc j) ?cells) @ concat (map ?f (drop (Suc i) ?rows))"
  have rows: "?rows = take i ?rows @ ?r # drop (Suc i) ?rows"
    using i by (rule id_take_nth_drop)
  have notin: "?r \<notin> set (take i ?rows)" "?r \<notin> set (drop (Suc i) ?rows)"
  proof -
    from d rows have "distinct (take i ?rows @ ?r # drop (Suc i) ?rows)" by simp
    then show "?r \<notin> set (take i ?rows)" "?r \<notin> set (drop (Suc i) ?rows)" by auto
  qed
  have "cellRefs (s\<lparr>rowArrays := (rowArrays s)(?r := ?cells[j := v])\<rparr>) b = ?A @ refsOf [v] @ ?B"
    for v
  proof -
    let ?g = "\<lambda>r. refsOf (((rowArrays s)(?r := ?cells[j := v])) r)"
    have g1: "map ?g (take i ?rows) = map ?f (take i ?rows)"
      using notin(1) by (auto intro!: map_cong)
    have g2: "map ?g (drop (Suc i) ?rows) = map ?f (drop (Suc i) ?rows)"
      using notin(2) by (auto intro!: map_cong)
    have g3: "?g ?r = refsOf (take j ?cells) @ refsOf [v] @ refsOf (drop (Suc j) ?cells)"
      using j by (simp add: upd_conv_take_nth_drop refsOf_simps(4) [symmetric])
    have "cellRefs (s\<lparr>rowArrays := (rowArrays s)(?r := ?cells[j := v])\<rparr>) b =
            concat (map ?g ?rows)"
      by (simp add: cellRefs_def)
    also have "\<dots> = concat (map ?g (take i ?rows @ ?r # drop (Suc i) ?rows))"
      using rows by simp
    also have "\<dots> = concat (map ?g (take i ?rows)) @ ?g ?r @ concat (map ?g (drop (Suc i) ?rows))"
      by simp
    also have "\<dots> = ?A @ refsOf [v] @ ?B"
      unfolding g1 g2 g3 by simp
    finally show ?thesis .
  qed
  then show ?thesis by blast
qed

lemma cloneCells_value:
  "cloneCells s cs = (s', cs') \<Longrightarrow> (\<forall>a. Some a \<in> set cs \<longrightarrow> a < lim s) \<Longrightarrow>
     map (map_option (pieces s')) cs' = map (map_option (pieces s)) cs \<and>
     refsOf cs' = [lim s..<lim s']"
proof (induction s cs arbitrary: s' cs' rule: cloneCells.induct)
  case (1 s)
  then show ?case by (simp add: refsOf_simps)
next
  case (2 s cs)
  obtain s2 cs2 where cl: "cloneCells s cs = (s2, cs2)" by (cases "cloneCells s cs")
  from "2.prems" cl have res: "s' = s2" "cs' = None # cs2" by simp_all
  from "2.IH" [OF cl] "2.prems"(2) show ?case
    unfolding res by (simp add: refsOf_simps)
next
  case (3 s a cs)
  let ?pc = "\<lparr>pid = pid (pieces s a), player = player (pieces s a), king = king (pieces s a)\<rparr>"
  obtain s1 a' where al: "allocPiece s ?pc = (s1, a')" by (cases "allocPiece s ?pc")
  obtain s2 cs2 where cl: "cloneCells s1 cs = (s2, cs2)" by (cases "cloneCells s1 cs")
  from al have s1: "lim s1 = Suc (lim s)" "a' = lim s" "pieces s1 = (pieces s)(lim s := ?pc)"
    by (auto simp: allocPiece_def)
  have pc: "?pc = pieces s a" by simp
  from "3.prems"(2) s1 have old1: "\<forall>x. Some x \<in> set cs \<longrightarrow> x < lim s1" by auto
  from "3.IH" [OF al [symmetric] refl cl old1]
  have ih: "map (map_option (pieces s2)) cs2 = map (map_option (pieces s1)) cs"
    "refsOf cs2 = [lim s1..<lim s2]" by simp_all
  from cloneCells_frame [OF cl order_refl]
  have fr: "lim s1 \<le> lim s2" "\<forall>x. x < lim s1 \<longrightarrow> pieces s2 x = pieces s1 x" by simp_all
  from "3.prems"(1) al cl have res: "s' = s2" "cs' = Some a' # cs2" by simp_all
  have tail: "map (map_option (pieces s1)) cs = map (map_option (pieces s)) cs"
  proof (rule map_cong [OF refl])
    fix c assume "c \<in> set cs"
    with "3.prems"(2) show "map_option (pieces s1) c = map_option (pieces s) c"
      unfolding s1 by (cases c) auto
  qed
  have hd: "pieces s2 a' = pieces s a"
    using fr(2) s1 pc by simp
  have rng: "[lim s..<lim s2] = lim s # [lim s1..<lim s2]"
    using fr(1) s1(1) by (simp add: upt_conv_Cons)
  show ?case
    unfolding res using ih tail hd rng s1(2) by (simp add: refsOf_simps)
qed

lemma sorted_upt_lt: "sorted_wrt (<) [i..<j]"
  by (simp add: sorted_wrt_upt)

lemma cloneRows_value:
  "cloneRows s rs = (s', rs') \<Longrightarrow>
   (\<forall>r \<in> set rs. r < lim s \<and> (\<forall>a. Some a \<in> set (rowArrays s r) \<longrightarrow> a < lim s)) \<Longrightarrow>
     map (\<lambda>r. map (map_option (pieces s')) (rowArrays s' r)) rs' =
       map (\<lambda>r. map (map_option (pieces s)) (rowArrays s r)) rs \<and>
     sorted_wrt (<) rs' \<and> (\<forall>r \<in> set rs'. lim s \<le> r \<and> r < lim s') \<and>
     sorted_wrt (<) (concat (map (\<lambda>r. refsOf (rowArrays s' r)) rs')) \<and>
     (\<forall>a \<in> set (concat (map (\<lambda>r. refsOf (rowArrays s' r)) rs')). lim s \<le> a \<and> a < lim s')"
proof (induction rs arbitrary: s s' rs')
  case Nil
  then show ?case by simp
next
  case (Cons r rs)
  obtain s1 cells' where cc: "cloneCells s (rowArrays s r) = (s1, cells')"
    by (cases "cloneCells s (rowArrays s r)")
  obtain s2 r' where al: "allocRow s1 cells' = (s2, r')" by (cases "allocRow s1 cells'")
  obtain s3 rs3 where cr: "cloneRows s2 rs = (s3, rs3)" by (cases "cloneRows s2 rs")
  from Cons.prems(2) have oldr: "\<forall>a. Some a \<in> set (rowArrays s r) \<longrightarrow> a < lim s" by simp
  from cloneCells_value [OF cc oldr]
  have v1: "map (map_option (pieces s1)) cells' = map (map_option (pieces s)) (rowArrays s r)"
    "refsOf cells' = [lim s..<lim s1]" by simp_all
  from cloneCells_frame [OF cc order_refl]
  have c1: "lim s \<le> lim s1" "rowArrays s1 = rowArrays s"
    "\<forall>a. a < lim s \<longrightarrow> pieces s1 a = pieces s a" by simp_all
  from al have a2: "lim s2 = Suc (lim s1)" "r' = lim s1" "pieces s2 = pieces s1"
    "rowArrays s2 = (rowArrays s1)(lim s1 := cells')"
    by (auto simp: allocRow_def)
  have old2: "\<forall>x \<in> set rs. x < lim s2 \<and> (\<forall>a. Some a \<in> set (rowArrays s2 x) \<longrightarrow> a < lim s2)"
  proof
    fix x assume x: "x \<in> set rs"
    with Cons.prems(2) have xl: "x < lim s" "\<forall>a. Some a \<in> set (rowArrays s x) \<longrightarrow> a < lim s"
      by simp_all
    from xl(1) c1(1) have "x \<noteq> lim s1" by simp
    then have "rowArrays s2 x = rowArrays s x" unfolding a2 c1 by simp
    with xl c1(1) a2(1) show "x < lim s2 \<and> (\<forall>a. Some a \<in> set (rowArrays s2 x) \<longrightarrow> a < lim s2)"
      by auto
  qed
  from Cons.IH [OF cr old2]
  have ih: "map (\<lambda>r. map (map_option (pieces s3)) (rowArrays s3 r)) rs3 =
              map (\<lambda>r. map (map_option (pieces s2)) (rowArrays s2 r)) rs"
    "sorted_wrt (<) rs3" "\<forall>r \<in> set rs3. lim s2 \<le> r \<and> r < lim s3"
    "sorted_wrt (<) (concat (map (\<lambda>r. refsOf (rowArrays s3 r)) rs3))"
    "\<forall>a \<in> set (concat (map (\<lambda>r. refsOf (rowArrays s3 r)) rs3)). lim s2 \<le> a \<and> a < lim s3"
    by simp_all
  from cloneRows_frame [OF cr order_refl]
  have f3: "lim s2 \<le> lim s3"
    "\<forall>a. a < lim s2 \<longrightarrow> pieces s3 a = pieces s2 a \<and> rowArrays s3 a = rowArrays s2 a"
    by simp_all
  from Cons.prems(1) cc al cr have res: "s' = s3" "rs' = r' # rs3" by simp_all
  have r'3: "rowArrays s3 r' = cells'" using f3(2) a2 by simp
  have cellsl: "\<forall>a. Some a \<in> set cells' \<longrightarrow> a < lim s1"
    using v1(2) set_refsOf [of cells'] by auto
  have hd: "map (map_option (pieces s3)) (rowArrays s3 r') =
              map (map_option (pieces s)) (rowArrays s r)"
  proof -
    have "map (map_option (pieces s3)) cells' = map (map_option (pieces s1)) cells'"
    proof (rule map_cong [OF refl])
      fix c assume "c \<in> set cells'"
      with cellsl f3(2) a2 show "map_option (pieces s3) c = map_option (pieces s1) c"
        by (cases c) auto
    qed
    with v1(1) r'3 show ?thesis by simp
  qed
  have tl: "map (\<lambda>r. map (map_option (pieces s2)) (rowArrays s2 r)) rs =
              map (\<lambda>r. map (map_option (pieces s)) (rowArrays s r)) rs"
  proof (rule map_cong [OF refl])
    fix x assume x: "x \<in> set rs"
    with Cons.prems(2) have xl: "x < lim s" "\<forall>a. Some a \<in> set (rowArrays s x) \<longrightarrow> a < lim s"
      by simp_all
    from xl(1) c1(1) have "x \<noteq> lim s1" by simp
    then have rx: "rowArrays s2 x = rowArrays s x" unfolding a2 c1 by simp
    have "map (map_option (pieces s2)) (rowArrays s x) = map (map_option (pieces s)) (rowArrays s x)"
    proof (rule map_cong [OF refl])
      fix c assume "c \<in> set (rowArrays s x)"
      with xl(2) c1(3) a2(3) show "map_option (pieces s2) c = map_option (pieces s) c"
        by (cases c) auto
    qed
    with rx show "map (map_option (pieces s2)) (rowArrays s2 x) =
                  map (map_option (pieces s)) (rowArrays s x)" by simp
  qed
  have refs_hd: "refsOf (rowArrays s3 r') = [lim s..<lim s1]" using r'3 v1(2) by simp
  have s1: "sorted_wrt (<) (r' # rs3)"
    using ih(2) ih(3) a2 by auto
  have s2: "\<forall>x \<in> set (r' # rs3). lim s \<le> x \<and> x < lim s3"
    using ih(3) a2 c1(1) f3(1) by auto
  have s3: "sorted_wrt (<) (concat (map (\<lambda>r. refsOf (rowArrays s3 r)) (r' # rs3)))"
  proof -
    have "x < y" if "x \<in> set [lim s..<lim s1]"
      "y \<in> set (concat (map (\<lambda>r. refsOf (rowArrays s3 r)) rs3))" for x y
    proof -
      from that(1) have "x < lim s1" by simp
      moreover from ih(5) that(2) have "lim s2 \<le> y" by blast
      ultimately show ?thesis using a2(1) by simp
    qed
    with ih(4) show ?thesis
      by (simp add: refs_hd sorted_wrt_append sorted_upt_lt)
  qed
  have s4: "\<forall>a \<in> set (concat (map (\<lambda>r. refsOf (rowArrays s3 r)) (r' # rs3))).
              lim s \<le> a \<and> a < lim s3"
  proof -
    have "\<forall>a \<in> set [lim s..<lim s1]. lim s \<le> a \<and> a < lim s3"
      using a2(1) f3(1) by auto
    moreover have "\<forall>a \<in> set (concat (map (\<lambda>r. refsOf (rowArrays s3 r)) rs3)).
                     lim s \<le> a \<and> a < lim s3"
    proof
      fix a assume "a \<in> set (concat (map (\<lambda>r. refsOf (rowArrays s3 r)) rs3))"
      with ih(5) have "lim s2 \<le> a \<and> a < lim s3" by blast
      with c1(1) a2(1) show "lim s \<le> a \<and> a < lim s3" by simp
    qed
    ultimately show ?thesis by (auto simp: refs_hd)
  qed
  show ?case
    unfolding res using hd tl ih(1) s1 s2 s3 s4 by simp
qed

lemma cloneBoardS_value:
  assumes cl: "cloneBoardS s b = (s', nb)" and al: "allocated s b"
  shows "snapshot s' nb = snapshot s b" "separate s' nb"
proof -
  obtain s1 rows' where cr: "cloneRows s (boardArrays s b) = (s1, rows')"
    by (cases "cloneRows s (boardArrays s b)")
  have old: "\<forall>r \<in> set (boardArrays s b).
               r < lim s \<and> (\<forall>a. Some a \<in> set (rowArrays s r) \<longrightarrow> a < lim s)"
    using al by (auto simp: allocated_def list_all_iff boardAddrs_cellRefs cellRefs_def set_refsOf)
  from cloneRows_value [OF cr old]
  have v: "map (\<lambda>r. map (map_option (pieces s1)) (rowArrays s1 r)) rows' =
             map (\<lambda>r. map (map_option (pieces s)) (rowArrays s r)) (boardArrays s b)"
    "sorted_wrt (<) rows'"
    "sorted_wrt (<) (concat (map (\<lambda>r. refsOf (rowArrays s1 r)) rows'))"
    by simp_all
  from cl cr have ab: "allocBoard s1 rows' = (s', nb)" by (simp add: cloneBoardS_def)
  then have a: "pieces s' = pieces s1" "rowArrays s' = rowArrays s1" "boardArrays s' nb = rows'"
    by (auto simp: allocBoard_def)
  show "snapshot s' nb = snapshot s b"
    unfolding snapshot_def a using v(1) .
  have "distinct rows'" using v(2) strict_sorted_iff by blast
  moreover have "distinct (concat (map (\<lambda>r. refsOf (rowArrays s1 r)) rows'))"
    using v(3) strict_sorted_iff by blast
  ultimately show "separate s' nb"
    unfolding separate_def cellRefs_def a by simp
qed

lemma cellAtS_nat:
  "cellAtS s b row col =
     (if 0 \<le> row \<and> nat row < length (boardArrays s b)
      then Inr (if 0 \<le> col \<and> nat col < length (rowArrays s (boardArrays s b ! nat row))
                then rowArrays s (boardArrays s b ! nat row) ! nat col else None)
      else Inl TypeError)"
  by (simp add: cellAtS_def Let_def nat_less_iff cong: conj_cong)

lemma setCellS_nat:
  "setCellS s b row col v =
     (if 0 \<le> row \<and> nat row < length (boardArrays s b)
      then (if 0 \<le> col \<and> nat col < length (rowArrays s (boardArrays s b ! nat row))
            then Inr (s\<lparr>rowArrays := (rowArrays s)
                     (boardArrays s b ! nat row :=
                        (rowArrays s (boardArrays s b ! nat row))[nat col := v])\<rparr>)
            else Inl OffGridWrite)
      else Inl TypeError)"
  by (simp add: setCellS_def Let_def nat_less_iff cong: conj_cong)

lemma setCellS_Inr:
  assumes "setCellS s b row col v = Inr s'"
  shows "nat row < length (boardArrays s b)"
    "nat col < length (rowArrays s (boardArrays s b ! nat row))"
    "0 \<le> row" "0 \<le> col"
    "s' = s\<lparr>rowArrays := (rowArrays s)
             (boardArrays s b ! nat row := (rowArrays s (boardArrays s b ! nat row))[nat col := v])\<rparr>"
  using assms unfolding setCellS_nat by (auto split: if_splits)

lemma setCellS_same:
  assumes "setCellS s b row col v = Inr s'"
  shows "boardArrays s' = boardArrays s" "pieces s' = pieces s" "lim s' = lim s"
    "cellAtS s' b row col = Inr v"
proof -
  note f = setCellS_Inr [OF assms]
  show "boardArrays s' = boardArrays s" "pieces s' = pieces s" "lim s' = lim s"
    unfolding f(5) by simp_all
  show "cellAtS s' b row col = Inr v"
    unfolding cellAtS_nat f(5) using f(1-4) by simp
qed

lemma cellAtS_Some_range:
  assumes "cellAtS s b row col = Inr (Some a)"
  shows "nat row < length (boardArrays s b)"
    "nat col < length (rowArrays s (boardArrays s b ! nat row))"
    "0 \<le> row" "0 \<le> col"
    "rowArrays s (boardArrays s b ! nat row) ! nat col = Some a"
  using assms unfolding cellAtS_nat by (auto split: if_splits)

lemma setCellS_other:
  assumes d: "distinct (boardArrays s b)" and w: "setCellS s b row col v = Inr s'"
    and ne: "(r, c) \<noteq> (row, col)"
  shows "cellAtS s' b r c = cellAtS s b r c"
proof -
  note f = setCellS_Inr [OF w]
  let ?rows = "boardArrays s b"
  show ?thesis
  proof (cases "0 \<le> r")
    case False
    then show ?thesis unfolding cellAtS_nat by simp
  next
    case r0: True
    show ?thesis
    proof (cases "nat r < length ?rows")
      case False
      then show ?thesis unfolding cellAtS_nat f(5) by simp
    next
      case k: True
      show ?thesis
      proof (cases "r = row")
        case False
        with r0 f(3) have "nat r \<noteq> nat row" by linarith
        with d k f(1) have "?rows ! nat r \<noteq> ?rows ! nat row" by (simp add: nth_eq_iff_index_eq)
        then show ?thesis unfolding cellAtS_nat f(5) by simp
      next
        case same: True
        with ne have cne: "c \<noteq> col" by simp
        show ?thesis
        proof (cases "0 \<le> c")
          case False
          then show ?thesis unfolding cellAtS_nat f(5) by simp
        next
          case True
          with cne f(4) have "nat c \<noteq> nat col" by linarith
          then show ?thesis unfolding cellAtS_nat f(5) same by simp
        qed
      qed
    qed
  qed
qed

lemma setCellS_refs:
  assumes d: "distinct (boardArrays s b)" and w: "setCellS s b row col v = Inr s'"
  shows "\<exists>A B c0. cellAtS s b row col = Inr c0 \<and> cellRefs s b = A @ refsOf [c0] @ B \<and>
                  cellRefs s' b = A @ refsOf [v] @ B"
proof -
  note f = setCellS_Inr [OF w]
  let ?r = "boardArrays s b ! nat row"
  let ?cells = "rowArrays s ?r"
  let ?c0 = "?cells ! nat col"
  from cellRefs_split [OF d f(1) f(2)]
  obtain A B where AB: "\<And>x. cellRefs (s\<lparr>rowArrays := (rowArrays s)(?r := ?cells[nat col := x])\<rparr>) b
                          = A @ refsOf [x] @ B" by blast
  have "s\<lparr>rowArrays := (rowArrays s)(?r := ?cells[nat col := ?c0])\<rparr> = s"
    by simp
  with AB [of ?c0] have old: "cellRefs s b = A @ refsOf [?c0] @ B" by simp
  have rd: "cellAtS s b row col = Inr ?c0"
    unfolding cellAtS_nat using f(1-4) by simp
  from AB [of v] f(5) have new: "cellRefs s' b = A @ refsOf [v] @ B" by simp
  from rd old new show ?thesis by blast
qed

lemma setCellS_clear:
  assumes sep: "separate s b" and w: "setCellS s b row col None = Inr s'"
  shows "separate s' b" "\<And>a. cellAtS s b row col = Inr (Some a) \<Longrightarrow> a \<notin> set (cellRefs s' b)"
    "\<And>a. a \<notin> set (cellRefs s b) \<Longrightarrow> a \<notin> set (cellRefs s' b)"
proof -
  from sep have d: "distinct (boardArrays s b)" and dc: "distinct (cellRefs s b)"
    by (simp_all add: separate_def)
  from setCellS_refs [OF d w] obtain A B c0 where
    ab: "cellAtS s b row col = Inr c0" "cellRefs s b = A @ refsOf [c0] @ B"
        "cellRefs s' b = A @ B"
    by (auto simp: refsOf_simps)
  show "separate s' b"
    using d dc ab setCellS_same(1) [OF w] by (auto simp: separate_def)
  show "a \<notin> set (cellRefs s' b)" if "cellAtS s b row col = Inr (Some a)" for a
    using that dc ab by (auto simp: refsOf_simps)
  show "a \<notin> set (cellRefs s' b)" if "a \<notin> set (cellRefs s b)" for a
    using that ab by auto
qed

lemma setCellS_put:
  assumes sep: "separate s b" and w: "setCellS s b row col (Some a) = Inr s'"
    and fresh: "a \<notin> set (cellRefs s b)"
  shows "separate s' b"
proof -
  from sep have d: "distinct (boardArrays s b)" and dc: "distinct (cellRefs s b)"
    by (simp_all add: separate_def)
  from setCellS_refs [OF d w] obtain A B c0 where
    ab: "cellRefs s b = A @ refsOf [c0] @ B" "cellRefs s' b = A @ [a] @ B"
    by (auto simp: refsOf_simps)
  show ?thesis
    using d dc ab fresh setCellS_same(1) [OF w] by (auto simp: separate_def)
qed

lemma captureStepS_value:
  assumes sep: "separate s b" and run: "captureStepS s b cap = (s', res)"
  shows "captureStep (snapshot s b) cap = map_sum id (\<lambda>c. (snapshot s' b, c)) res"
    "separate s' b" "pieces s' = pieces s" "boardArrays s' = boardArrays s"
    "\<And>a. a \<notin> set (cellRefs s b) \<Longrightarrow> a \<notin> set (cellRefs s' b)"
proof -
  from sep have d: "distinct (boardArrays s b)" by (simp add: separate_def)
  have "captureStep (snapshot s b) cap = map_sum id (\<lambda>c. (snapshot s' b, c)) res \<and>
        separate s' b \<and> pieces s' = pieces s \<and> boardArrays s' = boardArrays s \<and>
        (\<forall>a. a \<notin> set (cellRefs s b) \<longrightarrow> a \<notin> set (cellRefs s' b))"
  proof (cases cap)
    case None
    with run have "s' = s" "res = Inr None" by (simp_all add: captureStepS_def)
    with None sep show ?thesis by (simp add: captureStep_def)
  next
    case (Some sq)
    obtain r c where sq: "sq = (r, c)" by (cases sq)
    note rd = cellAtS_snapshot [of s b r c]
    note wr = setCellS_snapshot [OF d, of r c None, simplified]
    show ?thesis
    proof (cases "cellAtS s b r c")
      case (Inl e)
      with run Some sq have "s' = s" "res = Inl e" by (simp_all add: captureStepS_def)
      with Some sq sep rd Inl show ?thesis by (simp add: captureStep_def)
    next
      case (Inr captured)
      show ?thesis
      proof (cases "setCellS s b r c None")
        case (Inl e)
        with run Some sq Inr have "s' = s" "res = Inl e" by (simp_all add: captureStepS_def)
        with Some sq sep rd wr Inr Inl show ?thesis by (simp add: captureStep_def)
      next
        case w: (Inr s1)
        from run Some sq Inr w have res: "s' = s1"
          "res = Inr (map_option (\<lambda>a. pid (pieces s1 a)) captured)"
          by (auto simp: captureStepS_def)
        have "map_option pid (map_option (pieces s) captured) =
                map_option (\<lambda>a. pid (pieces s1 a)) captured"
          using setCellS_same(2) [OF w] by (cases captured) simp_all
        with rd wr Inr w have "captureStep (snapshot s b) cap =
            Inr (snapshot s1 b, map_option (\<lambda>a. pid (pieces s1 a)) captured)"
          by (simp add: captureStep_def Some sq)
        with setCellS_clear(1,3) [OF sep w] setCellS_same(1,2) [OF w] show ?thesis
          unfolding res by simp
      qed
    qed
  qed
  then show "captureStep (snapshot s b) cap = map_sum id (\<lambda>c. (snapshot s' b, c)) res"
    "separate s' b" "pieces s' = pieces s" "boardArrays s' = boardArrays s"
    "\<And>a. a \<notin> set (cellRefs s b) \<Longrightarrow> a \<notin> set (cellRefs s' b)"
    by simp_all
qed

lemma setCell_Inr:
  assumes "setCell b row col v = Inr b'"
  shows "b' = b[nat row := (b ! nat row)[nat col := v]]" "nat row < length b"
    "nat col < length (b ! nat row)"
  using assms by (auto simp: setCell_def Let_def split: if_splits)

lemma crown_snapshot:
  assumes sep: "separate s b" and at: "cellAtS s b tr tc = Inr (Some mp)"
  shows "snapshot (s\<lparr>pieces := (pieces s)(mp := x)\<rparr>) b =
           (snapshot s b)[nat tr := (snapshot s b ! nat tr)[nat tc := Some x]]"
proof -
  let ?r = "boardArrays s b ! nat tr"
  let ?cells = "rowArrays s ?r"
  let ?P = "(pieces s)(mp := x)"
  let ?B = "snapshot s b"
  note rg = cellAtS_Some_range [OF at]
  from sep have d: "distinct (boardArrays s b)" by (simp add: separate_def)
  define t where "t = s\<lparr>rowArrays := (rowArrays s)(?r := ?cells[nat tc := None])\<rparr>"
  have w0: "setCellS s b tr tc None = Inr t"
    unfolding setCellS_nat t_def using rg(1-4) by simp
  have notin: "mp \<notin> set (cellRefs t b)" by (rule setCellS_clear(2) [OF sep w0 at])
  define t' where "t' = t\<lparr>pieces := ?P\<rparr>"
  have cr: "cellRefs t' b = cellRefs t b" by (simp add: t'_def cellRefs_def)
  have snap_t': "snapshot t' b = snapshot t b"
    unfolding t'_def
    using snapshot_pieces_irrelevant [OF notin, of x]
    by (simp add: t_def)
  have same_cells: "?cells[nat tc := Some mp] = ?cells"
    using rg(5) by (metis list_update_id)
  have w1: "setCellS t' b tr tc (Some mp) = Inr (s\<lparr>pieces := ?P\<rparr>)"
    unfolding setCellS_nat t'_def t_def using rg(1-4) same_cells by simp
  have d': "distinct (boardArrays t' b)" using d by (simp add: t'_def t_def)
  from setCellS_snapshot [OF d, of tr tc None] w0
  have v0: "setCell ?B tr tc None = Inr (snapshot t b)" by simp
  from setCellS_snapshot [OF d', of tr tc "Some mp"] w1
  have v1: "setCell (snapshot t' b) tr tc (Some x) = Inr (snapshot (s\<lparr>pieces := ?P\<rparr>) b)"
    by (simp add: t'_def)
  note e0 = setCell_Inr [OF v0]
  note e1 = setCell_Inr [OF v1]
  have "snapshot (s\<lparr>pieces := ?P\<rparr>) b =
          (snapshot t b)[nat tr := (snapshot t b ! nat tr)[nat tc := Some x]]"
    using e1(1) snap_t' by simp
  also have "\<dots> = ?B[nat tr := (?B ! nat tr)[nat tc := Some x]]"
    unfolding e0(1) using e0(2) by simp
  finally show ?thesis .
qed

text \<open>
  Seen through the values of the boards, \<open>applyMoveS\<close> is \<open>applyMove\<close>: it raises
  when and what \<open>applyMove\<close> raises, and the result it returns has the value that
  \<open>applyMove\<close> returns on the value of the input board.
\<close>

lemma applyMoveS_refines:
  assumes run: "applyMoveS s b m cur = (s', res)" and al: "allocated s b"
  shows "applyMove (snapshot s b) m cur = map_sum id (appliedValue s') res"
proof -
  obtain s0 nb where cl: "cloneBoardS s b = (s0, nb)" by (cases "cloneBoardS s b")
  obtain fr fc where fs: "fromSq m = (fr, fc)" by (cases "fromSq m")
  obtain tr tc where ts: "toSq m = (tr, tc)" by (cases "toSq m")
  note c0 = cloneBoardS_value [OF cl al]
  let ?bv = "snapshot s b"
  from c0(2) have d0: "distinct (boardArrays s0 nb)" by (simp add: separate_def)
  have rd0: "cellAt ?bv fr fc = map_sum id (map_option (pieces s0)) (cellAtS s0 nb fr fc)"
    using cellAtS_snapshot [of s0 nb fr fc] c0(1) by simp
  show ?thesis
  proof (cases "cellAtS s0 nb fr fc")
    case (Inl e)
    with run cl fs ts have "s' = s0" "res = Inl e" by (simp_all add: applyMoveS_def)
    with rd0 Inl show ?thesis by (simp add: applyMove_def cloneBoard_id fs ts)
  next
    case (Inr cell)
    show ?thesis
    proof (cases cell)
      case None
      with run cl fs ts Inr have "s' = s0"
        "res = Inr \<lparr>board = nb, currentPlayer = cur, forcedPieceId = None,
                     capturedPieceId = None, promoted = False\<rparr>"
        by (simp_all add: applyMoveS_def)
      with rd0 Inr None c0(1) show ?thesis
        by (simp add: applyMove_def cloneBoard_id fs ts appliedValue_def)
    next
      case (Some mp)
      define pv where "pv = pieces s0 mp"
      have at0: "cellAtS s0 nb fr fc = Inr (Some mp)" using Inr Some by simp
      have rdv: "cellAt ?bv fr fc = Inr (Some pv)" using rd0 at0 by (simp add: pv_def)
      from setCellS_snapshot [OF d0, of fr fc None] c0(1)
      have wr1: "setCell ?bv fr fc None = map_sum id (\<lambda>x. snapshot x nb) (setCellS s0 nb fr fc None)"
        by simp
      show ?thesis
      proof (cases "setCellS s0 nb fr fc None")
        case (Inl e)
        with run cl fs ts at0 have "s' = s0" "res = Inl e" by (simp_all add: applyMoveS_def)
        with rdv wr1 Inl show ?thesis by (simp add: applyMove_def cloneBoard_id fs ts)
      next
        case w1: (Inr s1)
        have sep1: "separate s1 nb" and out1: "mp \<notin> set (cellRefs s1 nb)"
          using setCellS_clear(1,2) [OF c0(2) w1] at0 by simp_all
        have p1: "pieces s1 = pieces s0" by (rule setCellS_same(2) [OF w1])
        from sep1 have d1: "distinct (boardArrays s1 nb)" by (simp add: separate_def)
        have v1: "setCell ?bv fr fc None = Inr (snapshot s1 nb)" using wr1 w1 by simp
        from setCellS_snapshot [OF d1, of tr tc "Some mp"] p1
        have wr2: "setCell (snapshot s1 nb) tr tc (Some pv) =
                     map_sum id (\<lambda>x. snapshot x nb) (setCellS s1 nb tr tc (Some mp))"
          by (simp add: pv_def)
        show ?thesis
        proof (cases "setCellS s1 nb tr tc (Some mp)")
          case (Inl e)
          with run cl fs ts at0 w1 have "s' = s1" "res = Inl e"
            by (simp_all add: applyMoveS_def)
          with rdv v1 wr2 Inl show ?thesis by (simp add: applyMove_def cloneBoard_id fs ts)
        next
          case w2: (Inr s2)
          have sep2: "separate s2 nb" by (rule setCellS_put [OF sep1 w2 out1])
          have p2: "pieces s2 = pieces s0" using setCellS_same(2) [OF w2] p1 by simp
          have at2: "cellAtS s2 nb tr tc = Inr (Some mp)" by (rule setCellS_same(4) [OF w2])
          have v2: "setCell (snapshot s1 nb) tr tc (Some pv) = Inr (snapshot s2 nb)"
            using wr2 w2 by simp
          from sep2 have d2: "distinct (boardArrays s2 nb)" by (simp add: separate_def)
          obtain s3 cres where cs: "captureStepS s2 nb (capture m) = (s3, cres)"
            by (cases "captureStepS s2 nb (capture m)")
          note c3 = captureStepS_value [OF sep2 cs]
          show ?thesis
          proof (cases cres)
            case (Inl e)
            with run cl fs ts at0 w1 w2 cs have "s' = s3" "res = Inl e"
              by (simp_all add: applyMoveS_def)
            with rdv v1 v2 c3(1) Inl show ?thesis
              by (simp add: applyMove_def cloneBoard_id fs ts)
          next
            case cap: (Inr captured)
            have v3: "captureStep (snapshot s2 nb) (capture m) = Inr (snapshot s3 nb, captured)"
              using c3(1) cap by simp
            have p3: "pieces s3 mp = pv" using c3(3) p2 by (simp add: pv_def)
            define crowned where "crowned = crowns pv tr"
            define pv' where "pv' = (if crowned then pv\<lparr>king := True\<rparr> else pv)"
            define s4 where "s4 = (if crowned
                              then s3\<lparr>pieces := (pieces s3)(mp := pv\<lparr>king := True\<rparr>)\<rparr>
                              else s3)"
            define b4 where "b4 = (if crowned \<and> capture m \<noteq> Some (tr, tc)
                       then (snapshot s3 nb)[nat tr := (snapshot s3 nb ! nat tr)[nat tc := Some pv']]
                       else snapshot s3 nb)"
            have p4: "pieces s4 mp = pv'" unfolding s4_def pv'_def using p3 by simp
            have snap4: "snapshot s4 nb = b4"
            proof (cases crowned)
              case False
              then show ?thesis by (simp add: s4_def b4_def)
            next
              case True
              show ?thesis
              proof (cases "capture m = Some (tr, tc)")
                case same: True
                with cs cap obtain w where w: "setCellS s2 nb tr tc None = Inr w" "s3 = w"
                  by (auto simp: captureStepS_def split: sum.splits)
                have "mp \<notin> set (cellRefs s3 nb)"
                  using setCellS_clear(2) [OF sep2 w(1) at2] w(2) by simp
                from snapshot_pieces_irrelevant [OF this] True same show ?thesis
                  by (simp add: s4_def b4_def)
              next
                case other: False
                have at3: "cellAtS s3 nb tr tc = Inr (Some mp)"
                proof (cases "capture m")
                  case None
                  with cs have "s3 = s2" by (simp add: captureStepS_def)
                  with at2 show ?thesis by simp
                next
                  case (Some sq)
                  obtain cr cc where sq: "sq = (cr, cc)" by (cases sq)
                  with cs cap Some have w: "setCellS s2 nb cr cc None = Inr s3"
                    by (auto simp: captureStepS_def split: sum.splits)
                  from other Some sq have "(tr, tc) \<noteq> (cr, cc)" by auto
                  from setCellS_other [OF d2 w this] at2 show ?thesis by simp
                qed
                from crown_snapshot [OF c3(2) at3, of "pv\<lparr>king := True\<rparr>"] True other
                show ?thesis by (simp add: s4_def b4_def pv'_def)
              qed
            qed
            have val: "applyMove ?bv m cur =
                (if capture m \<noteq> None \<and> \<not> crowned
                 then (case getSinglePieceCaptures b4 tr tc pv' of
                         Inl e \<Rightarrow> Inl e
                       | Inr followups \<Rightarrow>
                           if followups \<noteq> []
                           then Inr \<lparr>board = b4, currentPlayer = cur,
                                     forcedPieceId = Some (pid pv'),
                                     capturedPieceId = captured, promoted = crowned\<rparr>
                           else Inr \<lparr>board = b4, currentPlayer = otherPlayer cur,
                                     forcedPieceId = None,
                                     capturedPieceId = captured, promoted = crowned\<rparr>)
                 else Inr \<lparr>board = b4, currentPlayer = otherPlayer cur,
                           forcedPieceId = None,
                           capturedPieceId = captured, promoted = crowned\<rparr>)"
            proof (cases "crowns pv tr")
              case True
              with rdv v1 v2 v3 show ?thesis
                by (simp add: applyMove_def cloneBoard_id fs ts Let_def crowned_def pv'_def b4_def
                      split: sum.splits)
            next
              case False
              with rdv v1 v2 v3 show ?thesis
                by (simp add: applyMove_def cloneBoard_id fs ts Let_def crowned_def pv'_def b4_def
                      split: sum.splits)
            qed
            have sto: "applyMoveS s b m cur =
                (if capture m \<noteq> None \<and> \<not> crowned
                 then (case getSinglePieceCaptures (snapshot s4 nb) tr tc (pieces s4 mp) of
                         Inl e \<Rightarrow> (s4, Inl e)
                       | Inr followups \<Rightarrow>
                           if followups \<noteq> []
                           then (s4, Inr \<lparr>board = nb, currentPlayer = cur,
                                     forcedPieceId = Some (pid (pieces s4 mp)),
                                     capturedPieceId = captured, promoted = crowned\<rparr>)
                           else (s4, Inr \<lparr>board = nb, currentPlayer = otherPlayer cur,
                                     forcedPieceId = None,
                                     capturedPieceId = captured, promoted = crowned\<rparr>))
                 else (s4, Inr \<lparr>board = nb, currentPlayer = otherPlayer cur,
                           forcedPieceId = None,
                           capturedPieceId = captured, promoted = crowned\<rparr>))"
            proof (cases "crowns pv tr")
              case True
              with cl at0 w1 w2 cs cap p3 show ?thesis
                by (simp add: applyMoveS_def fs ts Let_def crowned_def s4_def split: sum.splits)
            next
              case False
              with cl at0 w1 w2 cs cap p3 show ?thesis
                by (simp add: applyMoveS_def fs ts Let_def crowned_def s4_def split: sum.splits)
            qed
            note sto' = sto [unfolded snap4 p4]
            show ?thesis
            proof (cases "capture m \<noteq> None \<and> \<not> crowned")
              case False
              with run sto' have "s' = s4" "res = Inr \<lparr>board = nb, currentPlayer = otherPlayer cur,
                           forcedPieceId = None,
                           capturedPieceId = captured, promoted = crowned\<rparr>"
                by auto
              with False show ?thesis
                unfolding val by (auto simp: appliedValue_def snap4)
            next
              case True
              show ?thesis
              proof (cases "getSinglePieceCaptures b4 tr tc pv'")
                case (Inl e)
                with run sto' True have "s' = s4" "res = Inl e" by auto
                with True Inl show ?thesis unfolding val by simp
              next
                case (Inr followups)
                show ?thesis
                proof (cases "followups = []")
                  case e: True
                  with run sto' True Inr have "s' = s4"
                    "res = Inr \<lparr>board = nb, currentPlayer = otherPlayer cur,
                           forcedPieceId = None,
                           capturedPieceId = captured, promoted = crowned\<rparr>"
                    by auto
                  with True Inr e show ?thesis
                    unfolding val by (simp add: appliedValue_def snap4)
                next
                  case ne: False
                  with run sto' True Inr have "s' = s4"
                    "res = Inr \<lparr>board = nb, currentPlayer = cur,
                           forcedPieceId = Some (pid pv'),
                           capturedPieceId = captured, promoted = crowned\<rparr>"
                    by auto
                  with True Inr ne show ?thesis
                    unfolding val by (simp add: appliedValue_def snap4)
                qed
              qed
            qed
          qed
        qed
      qed
    qed
  qed
qed

section \<open>The properties on the test positions\<close>

theorem getLegalMoves_mandatory_capture_witness:
  "wfBoard mandatoryBoard \<and>
   (\<exists>x \<in> set (piecesOf mandatoryBoard Light). capturesOf mandatoryBoard x \<noteq> []) \<and>
   getLegalMoves mandatoryBoard Light None =
     Inr [\<lparr>pieceId = 1, fromSq = (5, 2), toSq = (3, 4), capture = Some (4, 3)\<rparr>] \<and>
   wfBoard loneBoard \<and>
   list_all (\<lambda>x. capturesOf loneBoard x = []) (piecesOf loneBoard Light) \<and>
   getLegalMoves loneBoard Light None =
     Inr [\<lparr>pieceId = 50, fromSq = (5, 2), toSq = (4, 1), capture = None\<rparr>,
          \<lparr>pieceId = 50, fromSq = (5, 2), toSq = (4, 3), capture = None\<rparr>]"
proof -
  have wf1: "wfBoard mandatoryBoard" by code_simp
  have ex1: "\<exists>x \<in> set (piecesOf mandatoryBoard Light). capturesOf mandatoryBoard x \<noteq> []"
    by code_simp
  have v1: "concat (map (capturesOf mandatoryBoard) (piecesOf mandatoryBoard Light)) =
              [\<lparr>pieceId = 1, fromSq = (5, 2), toSq = (3, 4), capture = Some (4, 3)\<rparr>]"
    by code_simp
  have wf2: "wfBoard loneBoard" by code_simp
  have all2: "\<forall>x \<in> set (piecesOf loneBoard Light). capturesOf loneBoard x = []"
    by code_simp
  have v2: "concat (map (slidesOf loneBoard) (piecesOf loneBoard Light)) =
              [\<lparr>pieceId = 50, fromSq = (5, 2), toSq = (4, 1), capture = None\<rparr>,
               \<lparr>pieceId = 50, fromSq = (5, 2), toSq = (4, 3), capture = None\<rparr>]"
    by code_simp
  from getLegalMoves_mandatory_capture [OF wf1, of Light] ex1
  have g1: "getLegalMoves mandatoryBoard Light None =
              Inr (concat (map (capturesOf mandatoryBoard) (piecesOf mandatoryBoard Light)))"
    by blast
  from getLegalMoves_mandatory_capture [OF wf2, of Light] all2
  have g2: "getLegalMoves loneBoard Light None =
              Inr (concat (map (slidesOf loneBoard) (piecesOf loneBoard Light)))"
    by blast
  from all2 have all2': "list_all (\<lambda>x. capturesOf loneBoard x = []) (piecesOf loneBoard Light)"
    by (simp add: list_all_iff)
  from wf1 ex1 g1 v1 wf2 all2' g2 v2 show ?thesis by simp
qed

text \<open>
  With the forced id \<open>0\<close> the scan of the whole board is returned, although no piece
  has the id \<open>0\<close>.
\<close>

theorem getLegalMoves_forced_zero_counterexample:
  "\<not> holdsId loneBoard 0 \<and> getLegalMoves loneBoard Light (Some 0) \<noteq> Inr []"
  by code_simp

theorem getLegalMoves_forced_nonzero_witness:
  "wfBoard chainNext \<and> (10 :: int) \<noteq> 0 \<and> holdsId chainNext 10 \<and>
   getLegalMoves chainNext Light (Some 10) =
     Inr [\<lparr>pieceId = 10, fromSq = (3, 2), toSq = (1, 4), capture = Some (2, 3)\<rparr>] \<and>
   \<not> holdsId chainNext 99 \<and> getLegalMoves chainNext Light (Some 99) = Inr []"
proof -
  have wf: "wfBoard chainNext" by code_simp
  have nz: "(10 :: int) \<noteq> 0" "(99 :: int) \<noteq> 0" by simp_all
  have h: "holdsId chainNext 10" by code_simp
  have nh: "\<not> holdsId chainNext 99" by code_simp
  have f: "findPiece 10 chainNext = Inr (Some (3, 2, \<lparr>pid = 10, player = Light, king = False\<rparr>))"
    by code_simp
  have v: "capturesOf chainNext (3, 2, \<lparr>pid = 10, player = Light, king = False\<rparr>) =
             [\<lparr>pieceId = 10, fromSq = (3, 2), toSq = (1, 4), capture = Some (2, 3)\<rparr>]"
    by code_simp
  from getLegalMoves_forced_nonzero [OF wf nz(1), of Light] h f
  have g1: "getLegalMoves chainNext Light (Some 10) =
              Inr (capturesOf chainNext (3, 2, \<lparr>pid = 10, player = Light, king = False\<rparr>))"
    by auto
  from getLegalMoves_forced_nonzero [OF wf nz(2), of Light] nh
  have g2: "getLegalMoves chainNext Light (Some 99) = Inr []"
    by simp
  from wf h nh g1 g2 v show ?thesis by simp
qed

theorem applyMove_empty_from_witness:
  "cellAt loneBoard 4 3 = Inr None \<and>
   applyMove loneBoard \<lparr>pieceId = 50, fromSq = (4, 3), toSq = (3, 4), capture = None\<rparr> Dark =
     Inr \<lparr>board = loneBoard, currentPlayer = Dark, forcedPieceId = None,
          capturedPieceId = None, promoted = False\<rparr>"
proof -
  have e: "cellAt loneBoard 4 3 = Inr None" by code_simp
  from applyMove_empty_from
         [of loneBoard "\<lparr>pieceId = 50, fromSq = (4, 3), toSq = (3, 4), capture = None\<rparr>" Dark]
       e
  show ?thesis by simp
qed

theorem applyMove_turn_witness:
  "wfBoard chainBoard \<and>
   cellAt chainBoard 5 0 = Inr (Some \<lparr>pid = 10, player = Light, king = False\<rparr>) \<and>
   isInside 3 2 \<and> onBoard (Some (4, 1)) \<and>
   applyMove chainBoard \<lparr>pieceId = 10, fromSq = (5, 0), toSq = (3, 2), capture = Some (4, 1)\<rparr>
       Light =
     Inr \<lparr>board = chainNext, currentPlayer = Light, forcedPieceId = Some 10,
          capturedPieceId = Some 20, promoted = False\<rparr> \<and>
   capturesOf chainNext (3, 2, \<lparr>pid = 10, player = Light, king = False\<rparr>) \<noteq> [] \<and>
   (\<exists>r. applyMove loneBoard \<lparr>pieceId = 50, fromSq = (5, 2), toSq = (4, 1), capture = None\<rparr>
            Light = Inr r \<and> currentPlayer r = Dark \<and> forcedPieceId r = None) \<and>
   (\<exists>r. applyMove mandatoryBoard \<lparr>pieceId = 2, fromSq = (4, 3), toSq = (5, 4), capture = None\<rparr>
            Dark = Inr r \<and> currentPlayer r = Light \<and> forcedPieceId r = None)"
proof -
  let ?m = "\<lparr>pieceId = 10, fromSq = (5, 0), toSq = (3, 2), capture = Some (4, 1)\<rparr>"
  let ?mp = "\<lparr>pid = 10, player = Light, king = False\<rparr>"
  have wf: "wfBoard chainBoard" by code_simp
  have mp: "cellAt chainBoard (fst (fromSq ?m)) (snd (fromSq ?m)) = Inr (Some ?mp)"
    by code_simp
  have to: "isInside (fst (toSq ?m)) (snd (toSq ?m))" by code_simp
  have cap: "onBoard (capture ?m)" by code_simp
  have e: "applyMove chainBoard ?m Light =
     Inr \<lparr>board = chainNext, currentPlayer = Light, forcedPieceId = Some 10,
          capturedPieceId = Some 20, promoted = False\<rparr>" by code_simp
  have f: "capturesOf chainNext (3, 2, ?mp) \<noteq> []" by code_simp
  let ?sl = "\<lparr>pieceId = 50, fromSq = (5, 2), toSq = (4, 1), capture = None\<rparr>"
  let ?sp = "\<lparr>pid = 50, player = Light, king = False\<rparr>"
  have wfl: "wfBoard loneBoard" by code_simp
  have mpl: "cellAt loneBoard (fst (fromSq ?sl)) (snd (fromSq ?sl)) = Inr (Some ?sp)"
    by code_simp
  have tol: "isInside (fst (toSq ?sl)) (snd (toSq ?sl))" by code_simp
  have capl: "onBoard (capture ?sl)" by code_simp
  from applyMove_turn [OF wfl mpl tol capl, of Light]
  have light: "\<exists>r. applyMove loneBoard ?sl Light = Inr r \<and> currentPlayer r = Dark \<and>
                  forcedPieceId r = None"
    by auto
  let ?sd = "\<lparr>pieceId = 2, fromSq = (4, 3), toSq = (5, 4), capture = None\<rparr>"
  let ?dp = "\<lparr>pid = 2, player = Dark, king = False\<rparr>"
  have wfd: "wfBoard mandatoryBoard" by code_simp
  have mpd: "cellAt mandatoryBoard (fst (fromSq ?sd)) (snd (fromSq ?sd)) = Inr (Some ?dp)"
    by code_simp
  have tod: "isInside (fst (toSq ?sd)) (snd (toSq ?sd))" by code_simp
  have capd: "onBoard (capture ?sd)" by code_simp
  from applyMove_turn [OF wfd mpd tod capd, of Dark]
  have dark: "\<exists>r. applyMove mandatoryBoard ?sd Dark = Inr r \<and> currentPlayer r = Light \<and>
                 forcedPieceId r = None"
    by auto
  from applyMove_turn [OF wf mp to cap, of Light] wf mp to cap e f light dark
  show ?thesis by simp
qed

theorem applyMove_promotion_witness:
  "wfBoard crownBoard \<and>
   cellAt crownBoard 2 1 = Inr (Some \<lparr>pid = 30, player = Light, king = False\<rparr>) \<and>
   (0 :: int) = farRank Light \<and> isInside 0 3 \<and> onBoard (Some (1, 2)) \<and>
   (\<exists>r. applyMove crownBoard
            \<lparr>pieceId = 30, fromSq = (2, 1), toSq = (0, 3), capture = Some (1, 2)\<rparr> Light = Inr r \<and>
        promoted r \<and> forcedPieceId r = None \<and> currentPlayer r = Dark \<and>
        capturedPieceId r = Some 31 \<and>
        cellAt (board r) 0 3 = Inr (Some \<lparr>pid = 30, player = Light, king = True\<rparr>) \<and>
        capturesOf (board r) (0, 3, \<lparr>pid = 30, player = Light, king = True\<rparr>) \<noteq> []) \<and>
   (\<exists>r. applyMove darkRunBoard
            \<lparr>pieceId = 60, fromSq = (6, 1), toSq = (7, 2), capture = None\<rparr> Dark = Inr r \<and>
        promoted r \<and> forcedPieceId r = None \<and> currentPlayer r = Light \<and>
        cellAt (board r) 7 2 = Inr (Some \<lparr>pid = 60, player = Dark, king = True\<rparr>))"
proof -
  let ?m = "\<lparr>pieceId = 30, fromSq = (2, 1), toSq = (0, 3), capture = Some (1, 2)\<rparr>"
  let ?mp = "\<lparr>pid = 30, player = Light, king = False\<rparr>"
  have wf: "wfBoard crownBoard" by code_simp
  have mp: "cellAt crownBoard (fst (fromSq ?m)) (snd (fromSq ?m)) = Inr (Some ?mp)"
    by code_simp
  have man: "\<not> king ?mp" by simp
  have far: "fst (toSq ?m) = farRank (player ?mp)" by code_simp
  have to: "isInside (fst (toSq ?m)) (snd (toSq ?m))" by code_simp
  have cap: "onBoard (capture ?m)" by code_simp
  have away: "capture ?m \<noteq> Some (toSq ?m)" by simp
  from applyMove_promotion [OF wf mp man far to cap away, of Light]
  obtain r where r: "applyMove crownBoard ?m Light = Inr r" "promoted r"
      "forcedPieceId r = None" "currentPlayer r = Dark"
      "cellAt (board r) 0 3 = Inr (Some (?mp\<lparr>king := True\<rparr>))"
    by auto
  have e: "applyMove crownBoard ?m Light =
     Inr \<lparr>board = place (place emptyBoard 0 3 \<lparr>pid = 30, player = Light, king = True\<rparr>)
                         1 4 \<lparr>pid = 32, player = Dark, king = False\<rparr>,
          currentPlayer = Dark, forcedPieceId = None,
          capturedPieceId = Some 31, promoted = True\<rparr>" by code_simp
  have f: "capturesOf (place (place emptyBoard 0 3 \<lparr>pid = 30, player = Light, king = True\<rparr>)
                         1 4 \<lparr>pid = 32, player = Dark, king = False\<rparr>)
              (0, 3, \<lparr>pid = 30, player = Light, king = True\<rparr>) \<noteq> []" by code_simp
  from r e f have "promoted r \<and> forcedPieceId r = None \<and> currentPlayer r = Dark \<and>
        capturedPieceId r = Some 31 \<and>
        cellAt (board r) 0 3 = Inr (Some \<lparr>pid = 30, player = Light, king = True\<rparr>) \<and>
        capturesOf (board r) (0, 3, \<lparr>pid = 30, player = Light, king = True\<rparr>) \<noteq> []"
    by auto
  with r(1) have light: "\<exists>r. applyMove crownBoard ?m Light = Inr r \<and>
        promoted r \<and> forcedPieceId r = None \<and> currentPlayer r = Dark \<and>
        capturedPieceId r = Some 31 \<and>
        cellAt (board r) 0 3 = Inr (Some \<lparr>pid = 30, player = Light, king = True\<rparr>) \<and>
        capturesOf (board r) (0, 3, \<lparr>pid = 30, player = Light, king = True\<rparr>) \<noteq> []"
    by blast
  let ?d = "\<lparr>pieceId = 60, fromSq = (6, 1), toSq = (7, 2), capture = None\<rparr>"
  let ?dp = "\<lparr>pid = 60, player = Dark, king = False\<rparr>"
  have wfd: "wfBoard darkRunBoard" by code_simp
  have mpd: "cellAt darkRunBoard (fst (fromSq ?d)) (snd (fromSq ?d)) = Inr (Some ?dp)"
    by code_simp
  have mand: "\<not> king ?dp" by simp
  have fard: "fst (toSq ?d) = farRank (player ?dp)" by code_simp
  have tod: "isInside (fst (toSq ?d)) (snd (toSq ?d))" by code_simp
  have capd: "onBoard (capture ?d)" by code_simp
  have awayd: "capture ?d \<noteq> Some (toSq ?d)" by simp
  from applyMove_promotion [OF wfd mpd mand fard tod capd awayd, of Dark]
  have dark: "\<exists>r. applyMove darkRunBoard ?d Dark = Inr r \<and>
        promoted r \<and> forcedPieceId r = None \<and> currentPlayer r = Light \<and>
        cellAt (board r) 7 2 = Inr (Some \<lparr>pid = 60, player = Dark, king = True\<rparr>)"
    by auto
  from wf mp far to cap light dark show ?thesis by simp
qed

text \<open>
  Light moves a dark man onto row 0, the far rank of light: the piece is not crowned, since
  row 0 is not the far rank of a dark piece.
\<close>

theorem applyMove_promotion_counterexample:
  "cellAt strayBoard 1 0 = Inr (Some \<lparr>pid = 7, player = Dark, king = False\<rparr>) \<and>
   (0 :: int) = farRank Light \<and>
   applyMove strayBoard \<lparr>pieceId = 7, fromSq = (1, 0), toSq = (0, 1), capture = None\<rparr> Light =
     Inr \<lparr>board = place emptyBoard 0 1 \<lparr>pid = 7, player = Dark, king = False\<rparr>,
          currentPlayer = Dark, forcedPieceId = None, capturedPieceId = None,
          promoted = False\<rparr>"
  by code_simp

theorem minimax_terminal_witness:
  "getLegalMoves emptyBoard Light None = Inr [] \<and>
   minimax emptyBoard Light None Light 0 NegInf PosInf (\<lambda>n. 0) 0 = Inr (Fin (- 1000), 0) \<and>
   minimax emptyBoard Dark None Light 3 NegInf PosInf (\<lambda>n. 0) 0 = Inr (Fin 1003, 0)"
proof -
  have e: "getLegalMoves emptyBoard Light None = Inr []" by code_simp
  have e2: "getLegalMoves emptyBoard Dark None = Inr []" by code_simp
  from minimax_terminal [OF e, of Light 0 NegInf PosInf "\<lambda>n. 0" 0]
       minimax_terminal [OF e2, of Light 3 NegInf PosInf "\<lambda>n. 0" 0] e
  show ?thesis by simp
qed

text \<open>
  With 101 moves the index \<open>floor (0.99 * 101) = 99\<close> is not the last one.
\<close>

theorem easy_last_counterexample:
  "chooseMoveBySkill Easy
     (replicate 100 \<lparr>pieceId = 1, fromSq = (5, 2), toSq = (4, 1), capture = None\<rparr>
        @ [\<lparr>pieceId = 1, fromSq = (5, 2), toSq = (4, 3), capture = None\<rparr>])
     emptyBoard Light (\<lambda>n. 0.99)
   \<noteq> Inr (Some (last
     (replicate 100 \<lparr>pieceId = 1, fromSq = (5, 2), toSq = (4, 1), capture = None\<rparr>
        @ [\<lparr>pieceId = 1, fromSq = (5, 2), toSq = (4, 3), capture = None\<rparr>])))"
  by (simp add: chooseMoveBySkill_def Let_def nth_append)

text \<open>
  A capture entry that moves a man five rows backwards scores below a promoting slide.
\<close>

theorem medium_long_leap_counterexample:
  "wfBoard longLeapBoard \<and>
   moveOnBoard \<lparr>pieceId = 40, fromSq = (2, 1), toSq = (7, 0), capture = Some (4, 3)\<rparr> \<and>
   moveOnBoard \<lparr>pieceId = 42, fromSq = (1, 2), toSq = (0, 3), capture = None\<rparr> \<and>
   chooseMoveBySkill Medium
     [\<lparr>pieceId = 40, fromSq = (2, 1), toSq = (7, 0), capture = Some (4, 3)\<rparr>,
      \<lparr>pieceId = 42, fromSq = (1, 2), toSq = (0, 3), capture = None\<rparr>]
     longLeapBoard Light (\<lambda>n. 0)
   = Inr (Some \<lparr>pieceId = 42, fromSq = (1, 2), toSq = (0, 3), capture = None\<rparr>)"
  by code_simp

theorem easy_last_upto_100_witness:
  "[\<lparr>pieceId = 50, fromSq = (5, 2), toSq = (4, 1), capture = None\<rparr>,
    \<lparr>pieceId = 50, fromSq = (5, 2), toSq = (4, 3), capture = None\<rparr>] \<noteq> [] \<and>
   length [\<lparr>pieceId = 50, fromSq = (5, 2), toSq = (4, 1), capture = None\<rparr>,
           \<lparr>pieceId = 50, fromSq = (5, 2), toSq = (4, 3), capture = None\<rparr>] \<le> 100 \<and>
   chooseMoveBySkill Easy
     [\<lparr>pieceId = 50, fromSq = (5, 2), toSq = (4, 1), capture = None\<rparr>,
      \<lparr>pieceId = 50, fromSq = (5, 2), toSq = (4, 3), capture = None\<rparr>]
     loneBoard Light (\<lambda>n. 0.99)
   = Inr (Some \<lparr>pieceId = 50, fromSq = (5, 2), toSq = (4, 3), capture = None\<rparr>)"
  using easy_last_upto_100
    [of "[\<lparr>pieceId = 50, fromSq = (5, 2), toSq = (4, 1), capture = None\<rparr>,
          \<lparr>pieceId = 50, fromSq = (5, 2), toSq = (4, 3), capture = None\<rparr>]" loneBoard Light]
  by simp

theorem medium_prefers_jump_captures_witness:
  "wfBoard greedyBoard \<and> unitRandom (\<lambda>n. 0) \<and>
   moveOnBoard \<lparr>pieceId = 40, fromSq = (5, 2), toSq = (4, 1), capture = None\<rparr> \<and>
   moveOnBoard \<lparr>pieceId = 40, fromSq = (5, 2), toSq = (3, 4), capture = Some (4, 3)\<rparr> \<and>
   jumpRows \<lparr>pieceId = 40, fromSq = (5, 2), toSq = (3, 4), capture = Some (4, 3)\<rparr> \<and>
   chooseMoveBySkill Medium
     [\<lparr>pieceId = 40, fromSq = (5, 2), toSq = (4, 1), capture = None\<rparr>,
      \<lparr>pieceId = 40, fromSq = (5, 2), toSq = (3, 4), capture = Some (4, 3)\<rparr>]
     greedyBoard Light (\<lambda>n. 0)
   = Inr (Some \<lparr>pieceId = 40, fromSq = (5, 2), toSq = (3, 4), capture = Some (4, 3)\<rparr>)"
proof -
  let ?sl = "\<lparr>pieceId = 40, fromSq = (5, 2), toSq = (4, 1), capture = None\<rparr>"
  let ?cp = "\<lparr>pieceId = 40, fromSq = (5, 2), toSq = (3, 4), capture = Some (4, 3)\<rparr>"
  have wf: "wfBoard greedyBoard" by code_simp
  have un: "unitRandom (\<lambda>n. 0)" by (simp add: unitRandom_def)
  have o1: "moveOnBoard ?sl" by code_simp
  have o2: "moveOnBoard ?cp" by code_simp
  have j: "jumpRows ?cp" by code_simp
  have ob: "\<forall>m \<in> set [?sl, ?cp]. moveOnBoard m" using o1 o2 by simp
  have jm: "\<forall>m \<in> set [?sl, ?cp]. capture m \<noteq> None \<longrightarrow> jumpRows m" using j by simp
  have ex: "\<exists>m \<in> set [?sl, ?cp]. capture m \<noteq> None" by simp
  from medium_prefers_jump_captures [OF wf un ob jm ex, of Light]
  have "chooseMoveBySkill Medium [?sl, ?cp] greedyBoard Light (\<lambda>n. 0) = Inr (Some ?cp)"
    by auto
  with wf un o1 o2 j show ?thesis by simp
qed

theorem applyMoveS_frame_witness:
  "allocated crownStore crownRef \<and> snapshot crownStore crownRef = crownBoard \<and>
   (case applyMoveS crownStore crownRef
           \<lparr>pieceId = 30, fromSq = (2, 1), toSq = (0, 3), capture = Some (1, 2)\<rparr> Light of
      (s', Inr r) \<Rightarrow>
         snapshot s' crownRef = crownBoard \<and> promoted r \<and>
         cellAt (snapshot s' (board r)) 0 3 = Inr (Some \<lparr>pid = 30, player = Light, king = True\<rparr>) \<and>
         list_all (\<lambda>a. lim crownStore \<le> a \<and> a \<notin> set (boardAddrs crownStore crownRef))
                  (boardAddrs s' (board r))
    | (s', Inl e) \<Rightarrow> False)"
proof -
  let ?m = "\<lparr>pieceId = 30, fromSq = (2, 1), toSq = (0, 3), capture = Some (1, 2)\<rparr>"
  let ?run = "applyMoveS crownStore crownRef ?m Light"
  have al: "allocated crownStore crownRef" by code_simp
  have sn: "snapshot crownStore crownRef = crownBoard" by code_simp
  have run: "?run = (fst ?run, snd ?run)" by simp
  have ok: "case snd ?run of Inr r \<Rightarrow> promoted r \<and>
         cellAt (snapshot (fst ?run) (board r)) 0 3 =
           Inr (Some \<lparr>pid = 30, player = Light, king = True\<rparr>) | Inl e \<Rightarrow> False"
    by code_simp
  from applyMoveS_frame [OF run al] sn
  have fr: "snapshot (fst ?run) crownRef = crownBoard"
    "\<forall>r. snd ?run = Inr r \<longrightarrow>
        list_all (\<lambda>a. lim crownStore \<le> a \<and> a \<notin> set (boardAddrs crownStore crownRef))
                 (boardAddrs (fst ?run) (board r))"
    by simp_all
  show ?thesis
    using al sn ok fr by (cases ?run; cases "snd ?run") auto
qed

end
